theory Spec2Isabelle
  imports Complex_Main
begin

section \<open>Vectors, lines and triangles as the code uses them\<close>

text \<open>
  Coordinates are JavaScript numbers; they are modelled as reals, so every comparison
  below is the exact comparison the code writes down. The operations are the ones of
  the three.js classes the sources call (\<open>Vector3\<close>, \<open>Line3\<close>, \<open>Plane\<close>,
  \<open>Triangle\<close>), under the names they have there.
\<close>

datatype vec3 = Vector3 (vx: real) (vy: real) (vz: real)

definition add :: "vec3 \<Rightarrow> vec3 \<Rightarrow> vec3" where
  "add u v = Vector3 (vx u + vx v) (vy u + vy v) (vz u + vz v)"

definition subVectors :: "vec3 \<Rightarrow> vec3 \<Rightarrow> vec3" where
  "subVectors u v = Vector3 (vx u - vx v) (vy u - vy v) (vz u - vz v)"

definition multiplyScalar :: "vec3 \<Rightarrow> real \<Rightarrow> vec3" where
  "multiplyScalar v s = Vector3 (vx v * s) (vy v * s) (vz v * s)"

definition dot :: "vec3 \<Rightarrow> vec3 \<Rightarrow> real" where
  "dot u v = vx u * vx v + vy u * vy v + vz u * vz v"

definition cross :: "vec3 \<Rightarrow> vec3 \<Rightarrow> vec3" where
  "cross u v = Vector3 (vy u * vz v - vz u * vy v)
                       (vz u * vx v - vx u * vz v)
                       (vx u * vy v - vy u * vx v)"

definition lengthSq :: "vec3 \<Rightarrow> real" where
  "lengthSq v = vx v * vx v + vy v * vy v + vz v * vz v"

definition vlength :: "vec3 \<Rightarrow> real" where
  "vlength v = sqrt (lengthSq v)"

text \<open>\<open>normalize\<close> divides by \<open>length() || 1\<close>: the zero vector stays the zero vector.\<close>

definition normalize :: "vec3 \<Rightarrow> vec3" where
  "normalize v = multiplyScalar v (1 / (if vlength v = 0 then 1 else vlength v))"

definition distanceToSquared :: "vec3 \<Rightarrow> vec3 \<Rightarrow> real" where
  "distanceToSquared u v = lengthSq (subVectors u v)"

datatype line3 = Line3 (lstart: vec3) (lend: vec3)

definition delta :: "line3 \<Rightarrow> vec3" where
  "delta l = subVectors (lend l) (lstart l)"

definition distance :: "line3 \<Rightarrow> real" where
  "distance l = sqrt (distanceToSquared (lstart l) (lend l))"

definition line_at :: "line3 \<Rightarrow> real \<Rightarrow> vec3" where
  "line_at l t = add (multiplyScalar (delta l) t) (lstart l)"

text \<open>
  An \<open>ExtendedTriangle\<close>: the three vertices, and the plane that \<open>update()\<close> caches
  (unit normal through the vertices), valid while \<open>needsUpdate\<close> is false.
\<close>

record triangle =
  tri_a :: vec3
  tri_b :: vec3
  tri_c :: vec3
  needsUpdate :: bool
  plane_normal :: vec3
  plane_constant :: real

definition points :: "triangle \<Rightarrow> vec3 list" where
  "points t = [tri_a t, tri_b t, tri_c t]"

text \<open>\<open>Plane.setFromCoplanarPoints(a, b, c)\<close>: normal \<open>(c - b) \<times> (a - b)\<close>, normalised.\<close>

definition coplanarNormal :: "vec3 \<Rightarrow> vec3 \<Rightarrow> vec3 \<Rightarrow> vec3" where
  "coplanarNormal p q r = normalize (cross (subVectors r q) (subVectors p q))"

definition update :: "triangle \<Rightarrow> triangle" where
  "update t = t\<lparr> needsUpdate := False,
                 plane_normal := coplanarNormal (tri_a t) (tri_b t) (tri_c t),
                 plane_constant := - dot (tri_a t) (coplanarNormal (tri_a t) (tri_b t) (tri_c t)) \<rparr>"

text \<open>A triangle as the spatial index hands it to a callback: vertices set, cache stale.\<close>

definition mkTriangle :: "vec3 \<Rightarrow> vec3 \<Rightarrow> vec3 \<Rightarrow> triangle" where
  "mkTriangle p q r = \<lparr> tri_a = p, tri_b = q, tri_c = r, needsUpdate = True,
                        plane_normal = Vector3 0 0 0, plane_constant = 0 \<rparr>"

text \<open>\<open>Triangle.getArea()\<close>: half the length of \<open>(c - b) \<times> (a - b)\<close>.\<close>

definition getArea :: "triangle \<Rightarrow> real" where
  "getArea t = vlength (cross (subVectors (tri_c t) (tri_b t)) (subVectors (tri_a t) (tri_b t))) * (1 / 2)"

section \<open>Geometric predicates (triangleLineUtils.js)\<close>

definition EPSILON :: real where
  "EPSILON = 1 / 10 ^ 16"

text \<open>
  \<open>isLineTriangleEdge\<close>: the loop over the three vertices keeps two sticky flags and
  returns as soon as both are set.
\<close>

fun edgeLoop :: "vec3 \<Rightarrow> vec3 \<Rightarrow> vec3 list \<Rightarrow> bool \<Rightarrow> bool \<Rightarrow> bool" where
  "edgeLoop s e [] startMatches endMatches = (startMatches \<and> endMatches)"
| "edgeLoop s e (tp # tps) startMatches endMatches =
     (let sm = (if \<not> startMatches \<and> distanceToSquared s tp \<le> EPSILON then True else startMatches);
          em = (if \<not> endMatches \<and> distanceToSquared e tp \<le> EPSILON then True else endMatches)
      in if sm \<and> em then True else edgeLoop s e tps sm em)"

definition isLineTriangleEdge :: "triangle \<Rightarrow> line3 \<Rightarrow> bool" where
  "isLineTriangleEdge tri line = edgeLoop (lstart line) (lend line) (points tri) False False"

text \<open>
  The boundary-edge predicate in the specification's words: the two endpoints coincide
  with two distinct vertices of the triangle, in either order.
\<close>

definition near :: "vec3 \<Rightarrow> vec3 \<Rightarrow> bool" where
  "near p q = (distanceToSquared p q \<le> EPSILON)"

definition isBoundaryEdge_spec :: "triangle \<Rightarrow> line3 \<Rightarrow> bool" where
  "isBoundaryEdge_spec tri line =
     (let s = lstart line; e = lend line; p = tri_a tri; q = tri_b tri; r = tri_c tri
      in (near s p \<and> near e q) \<or> (near s q \<and> near e p)
       \<or> (near s q \<and> near e r) \<or> (near s r \<and> near e q)
       \<or> (near s r \<and> near e p) \<or> (near s p \<and> near e r))"

lemma edgeLoop_iff:
  "edgeLoop s e ps sm em =
     ((sm \<or> (\<exists>p \<in> set ps. near s p)) \<and> (em \<or> (\<exists>p \<in> set ps. near e p)))"
  by (induction ps arbitrary: sm em) (auto simp: near_def Let_def)

text \<open>
  What the loop computes: \<open>isLineTriangleEdge\<close> is true exactly when the start point
  coincides (squared distance at most \<open>EPSILON\<close>) with some vertex of the triangle and
  the end point coincides with some vertex of the triangle. Nothing in the loop asks
  the two vertices to be different ones; whenever the endpoints coincide with two
  distinct vertices, in either order, the predicate is true.
\<close>

lemma isLineTriangleEdge_iff:
  "isLineTriangleEdge tri line =
     ((\<exists>p \<in> set (points tri). near (lstart line) p) \<and> (\<exists>p \<in> set (points tri). near (lend line) p))
   \<and> (isBoundaryEdge_spec tri line \<longrightarrow> isLineTriangleEdge tri line)"
  by (auto simp: isLineTriangleEdge_def edgeLoop_iff isBoundaryEdge_spec_def points_def Let_def)

text \<open>
  C6 (the code at the failing input). The source comment asks whether the line is
  "exactly an edge on the triangle". On a line whose two endpoints both sit on the
  vertex \<open>a\<close> the two sticky flags are both set in the first iteration and the code
  answers true, although the endpoints do not coincide with two distinct vertices of
  the triangle.
\<close>

theorem isLineTriangleEdge_same_vertex:
  "isLineTriangleEdge (mkTriangle (Vector3 0 0 0) (Vector3 1 0 0) (Vector3 0 1 0))
                      (Line3 (Vector3 0 0 0) (Vector3 0 0 0))
   \<and> \<not> isBoundaryEdge_spec (mkTriangle (Vector3 0 0 0) (Vector3 1 0 0) (Vector3 0 1 0))
                      (Line3 (Vector3 0 0 0) (Vector3 0 0 0))"
  by (simp add: isLineTriangleEdge_def isBoundaryEdge_spec_def near_def mkTriangle_def points_def
                distanceToSquared_def lengthSq_def subVectors_def EPSILON_def)

subsection \<open>Degeneracy under the projection\<close>

text \<open>
  \<open>isYProjectedLineDegenerate\<close> writes the normalised direction into the module's
  temporary vector \<open>_dir\<close> before reading it, so its result depends on the two arguments only
  and neither argument is assigned. \<open>isYProjectedTriangleDegenerate\<close> calls
  \<open>tri.update()\<close> when the triangle's cache is stale; the model returns the triangle as
  the call leaves it.
\<close>

definition isYProjectedLineDegenerate :: "line3 \<Rightarrow> vec3 \<Rightarrow> bool" where
  "isYProjectedLineDegenerate line projectionVector =
     (\<bar>dot (normalize (delta line)) projectionVector\<bar> \<ge> 1 - EPSILON)"

definition isProjectedLineDegenerate :: "line3 \<Rightarrow> vec3 \<Rightarrow> bool" where
  "isProjectedLineDegenerate line projectionVector = isYProjectedLineDegenerate line projectionVector"

definition isYProjectedTriangleDegenerate :: "triangle \<Rightarrow> vec3 \<Rightarrow> bool \<times> triangle" where
  "isYProjectedTriangleDegenerate tri projectionVector =
     (let tri' = (if needsUpdate tri then update tri else tri)
      in (\<bar>dot (plane_normal tri') projectionVector\<bar> \<le> EPSILON, tri'))"

definition isProjectedTriangleDegenerate :: "triangle \<Rightarrow> vec3 \<Rightarrow> bool \<times> triangle" where
  "isProjectedTriangleDegenerate tri projectionVector = isYProjectedTriangleDegenerate tri projectionVector"

lemma lagrange: "lengthSq u * lengthSq v - dot u v * dot u v = lengthSq (cross u v)"
  by (simp add: lengthSq_def dot_def cross_def algebra_simps)

lemma lengthSq_nonneg: "0 \<le> lengthSq v"
  by (simp add: lengthSq_def)

lemma cauchy_schwarz: "dot u v * dot u v \<le> lengthSq u * lengthSq v"
  using lagrange [of u v] lengthSq_nonneg [of "cross u v"] by linarith

lemma lengthSq_multiplyScalar: "lengthSq (multiplyScalar v s) = lengthSq v * (s * s)"
  by (simp add: lengthSq_def multiplyScalar_def algebra_simps)

lemma lengthSq_normalize_le: "lengthSq (normalize v) \<le> 1"
proof (cases "vlength v = 0")
  case True
  then have "lengthSq v = 0" by (simp add: vlength_def)
  with True show ?thesis by (simp add: normalize_def lengthSq_multiplyScalar)
next
  case False
  have "vlength v * vlength v = lengthSq v"
    by (simp add: vlength_def lengthSq_nonneg)
  with False show ?thesis
    by (simp add: normalize_def lengthSq_multiplyScalar divide_simps)
qed

lemma abs_dot_normalize_le:
  assumes "lengthSq p = 1"
  shows "\<bar>dot (normalize d) p\<bar> \<le> 1"
proof -
  have "dot (normalize d) p * dot (normalize d) p \<le> lengthSq (normalize d) * lengthSq p"
    by (rule cauchy_schwarz)
  also have "\<dots> \<le> 1" using assms lengthSq_normalize_le [of d] by simp
  finally have "(dot (normalize d) p)\<^sup>2 \<le> 1\<^sup>2" by (simp add: power2_eq_square)
  then have "\<bar>dot (normalize d) p\<bar> \<le> \<bar>1\<bar>" by (simp only: abs_le_square_iff)
  then show ?thesis by simp
qed


text \<open>Evaluation of one square root used by the concrete inputs below.\<close>

lemma sqrt_25: "sqrt 25 = 5"
  using real_sqrt_abs [of 5] by simp

text \<open>
  C7 (as amended). For a projection vector of unit length the edge predicate is true
  exactly when the absolute dot product of the edge's normalised direction with the
  projection vector is within \<open>EPSILON\<close> of 1. The triangle predicate is true exactly
  when the absolute dot product of the triangle's plane normal (the cached one,
  refreshed first if stale) with the projection vector is at most \<open>EPSILON\<close>. The
  triangle predicate leaves the vertices alone, and leaves the whole triangle alone
  unless \<open>needsUpdate\<close> is set, in which case it refreshes the cached plane and clears
  the flag.
\<close>

theorem degeneracy_predicates:
  "(lengthSq pv = 1 \<longrightarrow>
        (isProjectedLineDegenerate line pv \<longleftrightarrow> \<bar>\<bar>dot (normalize (delta line)) pv\<bar> - 1\<bar> \<le> EPSILON))
   \<and> (fst (isProjectedTriangleDegenerate tri pv) \<longleftrightarrow>
        \<bar>dot (plane_normal (snd (isProjectedTriangleDegenerate tri pv))) pv\<bar> \<le> EPSILON)
   \<and> snd (isProjectedTriangleDegenerate tri pv) = (if needsUpdate tri then update tri else tri)
   \<and> points (snd (isProjectedTriangleDegenerate tri pv)) = points tri"
proof -
  have 1: "isProjectedLineDegenerate line pv \<longleftrightarrow> 1 - EPSILON \<le> \<bar>dot (normalize (delta line)) pv\<bar>"
    by (simp add: isProjectedLineDegenerate_def isYProjectedLineDegenerate_def)
  have 2: "isProjectedLineDegenerate line pv \<longleftrightarrow> \<bar>\<bar>dot (normalize (delta line)) pv\<bar> - 1\<bar> \<le> EPSILON"
    if "lengthSq pv = 1"
    using abs_dot_normalize_le [OF that, of "delta line"] 1 by (simp add: EPSILON_def)
  have 3: "fst (isProjectedTriangleDegenerate tri pv) \<longleftrightarrow>
        \<bar>dot (plane_normal (snd (isProjectedTriangleDegenerate tri pv))) pv\<bar> \<le> EPSILON"
    by (simp add: isProjectedTriangleDegenerate_def isYProjectedTriangleDegenerate_def Let_def)
  have 4: "snd (isProjectedTriangleDegenerate tri pv) = (if needsUpdate tri then update tri else tri)"
    by (simp add: isProjectedTriangleDegenerate_def isYProjectedTriangleDegenerate_def Let_def)
  have 5: "points (snd (isProjectedTriangleDegenerate tri pv)) = points tri"
    by (simp add: 4 points_def update_def)
  from 2 3 4 5 show ?thesis by blast
qed

theorem degeneracy_predicates_witness:
  "lengthSq (Vector3 0 1 0) = 1
   \<and> isProjectedLineDegenerate (Line3 (Vector3 0 0 0) (Vector3 0 1 0)) (Vector3 0 1 0)
   \<and> \<not> isProjectedLineDegenerate (Line3 (Vector3 0 0 0) (Vector3 3 4 0)) (Vector3 0 1 0)
   \<and> fst (isProjectedTriangleDegenerate (mkTriangle (Vector3 0 0 0) (Vector3 1 0 0) (Vector3 0 1 0)) (Vector3 0 1 0))"
  using degeneracy_predicates [of "Vector3 0 1 0" "Line3 (Vector3 0 0 0) (Vector3 0 1 0)"
          "mkTriangle (Vector3 0 0 0) (Vector3 1 0 0) (Vector3 0 1 0)"]
        degeneracy_predicates [of "Vector3 0 1 0" "Line3 (Vector3 0 0 0) (Vector3 3 4 0)"
          "mkTriangle (Vector3 0 0 0) (Vector3 1 0 0) (Vector3 0 1 0)"]
  by (simp add: mkTriangle_def update_def coplanarNormal_def normalize_def vlength_def lengthSq_def
        cross_def subVectors_def multiplyScalar_def dot_def delta_def EPSILON_def sqrt_25)

text \<open>
  C7 (as stated) fails in its last part: called on a triangle whose cache is stale, the
  triangle predicate changes its argument.
\<close>

theorem degeneracy_counterexample:
  "needsUpdate (mkTriangle (Vector3 0 0 0) (Vector3 1 0 0) (Vector3 0 1 0))
   \<and> snd (isProjectedTriangleDegenerate (mkTriangle (Vector3 0 0 0) (Vector3 1 0 0) (Vector3 0 1 0)) (Vector3 0 1 0))
       \<noteq> mkTriangle (Vector3 0 0 0) (Vector3 1 0 0) (Vector3 0 1 0)"
  by (simp add: isProjectedTriangleDegenerate_def isYProjectedTriangleDegenerate_def
        mkTriangle_def update_def)

section \<open>Overlap interval algebra\<close>

type_synonym interval = "real \<times> real"

text \<open>
  Modelled from the spec: \<open>compressEdgeOverlaps\<close> (imported by the generator from
  \<open>utils/overlapUtils.js\<close>, which is not among the sources). The specification:
  it sorts the intervals by \<open>t0\<close> and merges any that overlap or touch, producing the
  minimal disjoint cover. \<open>mergeSorted\<close> is the merging pass over the sorted list: an
  interval that starts at or before the end of its predecessor is absorbed into it.
\<close>

fun mergeSorted :: "interval list \<Rightarrow> interval list" where
  "mergeSorted [] = []"
| "mergeSorted [p] = [p]"
| "mergeSorted (p # q # rest) =
     (if snd p \<ge> fst q then mergeSorted ((fst p, max (snd p) (snd q)) # rest)
      else p # mergeSorted (q # rest))"

definition compressEdgeOverlaps :: "interval list \<Rightarrow> interval list" where
  "compressEdgeOverlaps overlaps = mergeSorted (sort_key fst overlaps)"

text \<open>
  Modelled from the spec: \<open>appendOverlapRange\<close> (imported from
  \<open>utils/getProjectedOverlaps.js\<close>, which is not among the sources). The specification:
  it converts the overlap sub-segment to a \<open>(t0, t1)\<close> interval relative to the edge's
  own parametrization and inserts it into the interval set, returning whether the set
  changed.
\<close>

definition appendOverlapRange :: "line3 \<Rightarrow> line3 \<Rightarrow> interval list \<Rightarrow> bool \<times> interval list" where
  "appendOverlapRange line overlapLine overlaps =
     (let d0 = distance (Line3 (lstart line) (lstart overlapLine)) / distance line;
          d1 = distance (Line3 (lstart line) (lend overlapLine)) / distance line
      in (True, overlaps @ [(d0, d1)]))"

text \<open>
  Modelled from the spec: \<open>overlapsToLines\<close> (imported from \<open>utils/overlapUtils.js\<close>,
  which is not among the sources). The specification: given the final disjoint, sorted
  hidden intervals, it emits the complementary visible sub-segments of the edge (the
  gaps between 0, the intervals, and 1); an interval set covering exactly \<open>[0, 1]\<close>
  yields no output.
\<close>

fun gaps :: "real \<Rightarrow> interval list \<Rightarrow> interval list" where
  "gaps lo [] = (if lo < 1 then [(lo, 1)] else [])"
| "gaps lo (p # ps) = (if lo < fst p then [(lo, fst p)] else []) @ gaps (snd p) ps"

definition overlapsToLines :: "line3 \<Rightarrow> interval list \<Rightarrow> line3 list" where
  "overlapsToLines line overlaps =
     map (\<lambda>p. Line3 (line_at line (fst p)) (line_at line (snd p))) (gaps 0 overlaps)"

text \<open>The points of the edge's parameter range that a list of intervals covers.\<close>

definition covered :: "interval list \<Rightarrow> real set" where
  "covered ivs = (\<Union>p \<in> set ivs. {fst p .. snd p})"

lemma covered_Nil: "covered [] = {}"
  by (simp add: covered_def)

lemma covered_Cons: "covered (p # ps) = {fst p .. snd p} \<union> covered ps"
  by (simp add: covered_def)

lemma covered_mergeSorted:
  "sorted (map fst ivs) \<Longrightarrow> covered (mergeSorted ivs) = covered ivs"
proof (induction ivs rule: mergeSorted.induct)
  case (3 p q rest)
  show ?case
  proof (cases "snd p \<ge> fst q")
    case True
    have srt: "sorted (map fst ((fst p, max (snd p) (snd q)) # rest))"
      using "3.prems" by auto
    have "{fst p .. max (snd p) (snd q)} = {fst p .. snd p} \<union> {fst q .. snd q}"
      using True "3.prems" by auto
    with "3.IH"(1) [OF True srt] True show ?thesis
      by (simp add: covered_Cons Un_assoc)
  next
    case False
    have "sorted (map fst (q # rest))" using "3.prems" by simp
    with "3.IH"(2) False show ?thesis by (simp add: covered_Cons)
  qed
qed (simp_all add: covered_Nil)

lemma fst_mergeSorted:
  "y \<in> set (mergeSorted ivs) \<Longrightarrow> \<exists>x \<in> set ivs. fst y = fst x"
  by (induction ivs rule: mergeSorted.induct) (auto split: if_splits)

lemma separated_mergeSorted:
  "sorted (map fst ivs) \<Longrightarrow> sorted_wrt (\<lambda>p q. snd p < fst q) (mergeSorted ivs)"
proof (induction ivs rule: mergeSorted.induct)
  case (3 p q rest)
  show ?case
  proof (cases "snd p \<ge> fst q")
    case True
    have "sorted (map fst ((fst p, max (snd p) (snd q)) # rest))"
      using "3.prems" by auto
    with "3.IH"(1) True show ?thesis by simp
  next
    case False
    have srt: "sorted (map fst (q # rest))" using "3.prems" by simp
    have "snd p < fst y" if "y \<in> set (mergeSorted (q # rest))" for y
    proof -
      from fst_mergeSorted [OF that] obtain x where "x \<in> set (q # rest)" "fst y = fst x" by blast
      moreover have "fst q \<le> fst x" using srt \<open>x \<in> set (q # rest)\<close> by auto
      ultimately show ?thesis using False by simp
    qed
    with "3.IH"(2) [OF False srt] False show ?thesis by simp
  qed
qed simp_all

lemma bounds_mergeSorted:
  "\<forall>p \<in> set ivs. lo \<le> fst p \<and> fst p \<le> snd p \<and> snd p \<le> hi \<Longrightarrow>
   \<forall>p \<in> set (mergeSorted ivs). lo \<le> fst p \<and> fst p \<le> snd p \<and> snd p \<le> hi"
proof (induction ivs rule: mergeSorted.induct)
  case (3 p q rest)
  show ?case
  proof (cases "snd p \<ge> fst q")
    case True
    have "\<forall>x \<in> set ((fst p, max (snd p) (snd q)) # rest). lo \<le> fst x \<and> fst x \<le> snd x \<and> snd x \<le> hi"
      using "3.prems" by (auto simp: le_max_iff_disj)
    with "3.IH"(1) [OF True] True show ?thesis by simp
  next
    case False
    have "\<forall>x \<in> set (q # rest). lo \<le> fst x \<and> fst x \<le> snd x \<and> snd x \<le> hi"
      using "3.prems" by simp
    with "3.IH"(2) [OF False] False "3.prems" show ?thesis by simp
  qed
qed simp_all

text \<open>
  C3. For a list of intervals with \<open>0 \<le> t0 \<le> t1 \<le> 1\<close>, the result of
  \<open>compressEdgeOverlaps\<close> is sorted by \<open>t0\<close>, its intervals are pairwise disjoint
  (each ends strictly before every later one starts), and it covers exactly the points
  the input covers. Its intervals again satisfy \<open>0 \<le> t0 \<le> t1 \<le> 1\<close>.
\<close>

theorem compressEdgeOverlaps_cover:
  assumes "\<forall>p \<in> set overlaps. 0 \<le> fst p \<and> fst p \<le> snd p \<and> snd p \<le> 1"
  shows "sorted (map fst (compressEdgeOverlaps overlaps))
       \<and> (\<forall>i j. i < j \<and> j < length (compressEdgeOverlaps overlaps) \<longrightarrow>
             {fst (compressEdgeOverlaps overlaps ! i) .. snd (compressEdgeOverlaps overlaps ! i)}
           \<inter> {fst (compressEdgeOverlaps overlaps ! j) .. snd (compressEdgeOverlaps overlaps ! j)} = {})
       \<and> covered (compressEdgeOverlaps overlaps) = covered overlaps
       \<and> (\<forall>p \<in> set (compressEdgeOverlaps overlaps). 0 \<le> fst p \<and> fst p \<le> snd p \<and> snd p \<le> 1)"
proof -
  let ?r = "compressEdgeOverlaps overlaps"
  have srt: "sorted (map fst (sort_key fst overlaps))" by simp
  have sep: "sorted_wrt (\<lambda>p q. snd p < fst q) ?r"
    unfolding compressEdgeOverlaps_def by (rule separated_mergeSorted [OF srt])
  have "\<forall>p \<in> set (sort_key fst overlaps). 0 \<le> fst p \<and> fst p \<le> snd p \<and> snd p \<le> 1"
    using assms by simp
  then have bnd: "\<forall>p \<in> set ?r. 0 \<le> fst p \<and> fst p \<le> snd p \<and> snd p \<le> 1"
    unfolding compressEdgeOverlaps_def by (rule bounds_mergeSorted)
  have lt: "snd (?r ! i) < fst (?r ! j)" if "i < j" "j < length ?r" for i j
    using sep that by (simp add: sorted_wrt_iff_nth_less)
  have 1: "sorted (map fst ?r)"
  proof -
    have "fst (?r ! i) \<le> fst (?r ! j)" if "i < j" "j < length ?r" for i j
    proof -
      have "?r ! i \<in> set ?r" using that by simp
      then have "fst (?r ! i) \<le> snd (?r ! i)" using bnd by blast
      with lt [OF that] show ?thesis by simp
    qed
    then have "sorted_wrt (\<lambda>p q. fst p \<le> fst q) ?r"
      by (simp add: sorted_wrt_iff_nth_less)
    then show ?thesis by (simp add: sorted_map)
  qed
  have 2: "{fst (?r ! i) .. snd (?r ! i)} \<inter> {fst (?r ! j) .. snd (?r ! j)} = {}"
    if "i < j \<and> j < length ?r" for i j
    using lt [of i j] that by auto
  have 3: "covered ?r = covered overlaps"
  proof -
    have "covered ?r = covered (sort_key fst overlaps)"
      unfolding compressEdgeOverlaps_def by (rule covered_mergeSorted [OF srt])
    also have "\<dots> = covered overlaps" by (simp add: covered_def)
    finally show ?thesis .
  qed
  from 1 2 3 bnd show ?thesis by blast
qed

theorem compressEdgeOverlaps_cover_witness:
  "compressEdgeOverlaps [(1/2, 1), (0, 1/8), (1/8, 1/4), (3/4, 7/8)] = [(0, 1/4), (1/2, 1)]
   \<and> sorted (map fst (compressEdgeOverlaps [(1/2, 1), (0, 1/8), (1/8, 1/4), (3/4, 7/8)]))
   \<and> covered (compressEdgeOverlaps [(1/2, 1), (0, 1/8), (1/8, 1/4), (3/4, 7/8)])
       = covered [(1/2, 1), (0, 1/8), (1/8, 1/4), (3/4, 7/8)]"
  using compressEdgeOverlaps_cover [of "[(1/2, 1), (0, 1/8), (1/8, 1/4), (3/4, 7/8)]"]
  by (simp add: compressEdgeOverlaps_def)

section \<open>The spatial index and the library routines the sources call\<close>

datatype box3 = Box3 (bmin: vec3) (bmax: vec3)

text \<open>
  Modelled from the spec: the traversal contract of the spatial index (an external
  capability, three-mesh-bvh's \<open>shapecast\<close>). Given a bounding-box admissibility
  predicate and a per-triangle callback that may answer "stop", the index visits only
  triangles all of whose enclosing bounding volumes satisfy the predicate, and ends the
  whole query when a callback answers true. The index is a list of leaves in traversal
  order, each triangle with the chain of boxes that enclose it; the callback threads
  the state the JavaScript closure mutates.
\<close>

type_synonym leaf = "box3 list \<times> triangle"

fun shapecast :: "(box3 \<Rightarrow> bool) \<Rightarrow> (triangle \<Rightarrow> 's \<Rightarrow> bool \<times> 's) \<Rightarrow> leaf list \<Rightarrow> 's \<Rightarrow> bool \<times> 's" where
  "shapecast intersectsBounds intersectsTriangle [] s = (False, s)"
| "shapecast intersectsBounds intersectsTriangle ((boxes, tri) # rest) s =
     (if list_all intersectsBounds boxes then
        (let (stop, s') = intersectsTriangle tri s
         in if stop then (True, s') else shapecast intersectsBounds intersectsTriangle rest s')
      else shapecast intersectsBounds intersectsTriangle rest s)"

text \<open>
  The mesh behind the index: \<open>geometry\<close> lists the triangles in the order of the index
  buffer (the order of the detector's outer loop), \<open>leaves\<close> is the traversal order.
\<close>

record bvh =
  geometry :: "(vec3 \<times> vec3 \<times> vec3) list"
  leaves :: "leaf list"

text \<open>
  Routines of three.js and three-mesh-bvh whose bodies are outside the repository, and
  the helper modules the generator imports that are not among the sources, are
  parameters of the model:
  \<open>Box3.intersectsTriangle\<close>, \<open>ExtendedTriangle.intersectsTriangle\<close> with a target line
  (\<open>None\<close> when it answers false), \<open>Ray.intersectBox\<close> (origin, direction, box),
  \<open>generateEdges\<close>, \<open>trimToBeneathTriPlane\<close>, \<open>appendOverlapRange\<close> (whether the set
  changed, and the set), \<open>compressEdgeOverlaps\<close> and \<open>overlapsToLines\<close> (the segments
  it appends).
\<close>

record env =
  ext_boxIntersectsTriangle :: "box3 \<Rightarrow> triangle \<Rightarrow> bool"
  ext_intersectsTriangle :: "triangle \<Rightarrow> triangle \<Rightarrow> line3 option"
  ext_rayIntersectBox :: "vec3 \<Rightarrow> vec3 \<Rightarrow> box3 \<Rightarrow> vec3 option"
  ext_generateEdges :: "(vec3 \<times> vec3 \<times> vec3) list \<Rightarrow> vec3 \<Rightarrow> real \<Rightarrow> line3 list"
  ext_trimToBeneathTriPlane :: "triangle \<Rightarrow> line3 \<Rightarrow> vec3 \<Rightarrow> line3 option"
  ext_appendOverlapRange :: "line3 \<Rightarrow> line3 \<Rightarrow> interval list \<Rightarrow> bool \<times> interval list"
  ext_compressEdgeOverlaps :: "interval list \<Rightarrow> interval list"
  ext_overlapsToLines :: "line3 \<Rightarrow> interval list \<Rightarrow> line3 list"

text \<open>\<open>Triangle.equals\<close>: the three vertices are equal, position by position.\<close>

definition triEquals :: "triangle \<Rightarrow> triangle \<Rightarrow> bool" where
  "triEquals t u = (tri_a u = tri_a t \<and> tri_b u = tri_b t \<and> tri_c u = tri_c t)"

section \<open>The addition of JavaScript numbers\<close>

text \<open>
  The detector adds an offset of \<open>1e-6\<close> to coordinates of any size, so there the
  constant and the sum are taken as JavaScript takes them: the exact value rounded to
  the nearest binary64 number, ties to the even significand. \<open>rne\<close> rounds a real to the nearest integer, ties to
  even; \<open>binary64\<close> rounds to 53 significant bits (overflow and subnormal numbers are
  left out); \<open>addFloat\<close> is \<open>Vector3.add\<close> in this arithmetic.
\<close>

definition rne :: "real \<Rightarrow> int" where
  "rne x = (let f = \<lfloor>x\<rfloor>; d = x - of_int f
            in if d < 1 / 2 then f else if d > 1 / 2 then f + 1 else if even f then f else f + 1)"

definition binary64 :: "real \<Rightarrow> real" where
  "binary64 x = (if x = 0 then 0
                 else let e = \<lfloor>log 2 \<bar>x\<bar>\<rfloor>
                      in of_int (rne (x * 2 powr (52 - of_int e))) * 2 powr (of_int e - 52))"

definition addFloat :: "vec3 \<Rightarrow> vec3 \<Rightarrow> vec3" where
  "addFloat u v = Vector3 (binary64 (vx u + vx v)) (binary64 (vy u + vy v)) (binary64 (vz u + vz v))"

lemma binary64_zero: "binary64 0 = 0"
  by (simp add: binary64_def)

text \<open>Within one binade the exponent is known and the rounding is a rounding of integers.\<close>

lemma binary64_binade:
  assumes "2 powr of_int k \<le> \<bar>x\<bar>" "\<bar>x\<bar> < 2 powr (of_int k + 1)"
  shows "binary64 x = of_int (rne (x * 2 powr (52 - of_int k))) * 2 powr (of_int k - 52)"
proof -
  have "(0::real) < 2 powr of_int k" by simp
  with assms(1) have pos: "0 < \<bar>x\<bar>" by linarith
  then have nz: "x \<noteq> 0" by simp
  have a: "of_int k \<le> log 2 \<bar>x\<bar>"
    using pos assms(1) le_log_iff [of 2 "\<bar>x\<bar>" "of_int k"] by simp
  have b: "log 2 \<bar>x\<bar> < of_int k + 1"
    using pos assms(2) log_less_iff [of 2 "\<bar>x\<bar>" "of_int k + 1"] by simp
  from a b have "\<lfloor>log 2 \<bar>x\<bar>\<rfloor> = k" by (rule floor_unique)
  with nz show ?thesis by (simp add: binary64_def Let_def)
qed

lemma rne_int: "rne (of_int n) = n"
  by (simp add: rne_def Let_def)

lemma rne_2_52: "rne 4503599627370496 = 4503599627370496" "rne (- 4503599627370496) = - 4503599627370496"
  using rne_int [of "2 ^ 52"] rne_int [of "- (2 ^ 52)"] by simp_all

lemma binary64_half: "binary64 (1 / 2) = 1 / 2" "binary64 (- (1 / 2)) = - (1 / 2)"
proof -
  have "binary64 (1 / 2) = of_int (rne (1 / 2 * 2 powr (52 - of_int (- 1)))) * 2 powr (of_int (- 1) - 52)"
    by (rule binary64_binade) simp_all
  then show "binary64 (1 / 2) = 1 / 2" by (simp add: rne_2_52 powr_minus_divide)
  have "binary64 (- (1 / 2)) = of_int (rne (- (1 / 2) * 2 powr (52 - of_int (- 1)))) * 2 powr (of_int (- 1) - 52)"
    by (rule binary64_binade) simp_all
  then show "binary64 (- (1 / 2)) = - (1 / 2)" by (simp add: rne_2_52 powr_minus_divide)
qed

lemma binary64_8192: "binary64 8192 = 8192" "binary64 (- 8192) = - 8192"
proof -
  have "binary64 8192 = of_int (rne (8192 * 2 powr (52 - of_int 13))) * 2 powr (of_int 13 - 52)"
    by (rule binary64_binade) simp_all
  then show "binary64 8192 = 8192" by (simp add: rne_2_52 powr_minus_divide)
  have "binary64 (- 8192) = of_int (rne (- 8192 * 2 powr (52 - of_int 13))) * 2 powr (of_int 13 - 52)"
    by (rule binary64_binade) simp_all
  then show "binary64 (- 8192) = - 8192" by (simp add: rne_2_52 powr_minus_divide)
qed

lemma rne_near:
  assumes "of_int n \<le> x" "x < of_int n + 1 / 2"
  shows "rne x = n"
proof -
  have "\<lfloor>x\<rfloor> = n" using assms by (intro floor_unique) simp_all
  with assms show ?thesis by (simp add: rne_def Let_def)
qed

section \<open>Self-intersection detector (generateIntersectionEdges.js)\<close>

text \<open>The literal \<open>1e-6\<close> denotes the JavaScript number nearest to \<open>1 / 10 ^ 6\<close>.\<close>

definition OFFSET_EPSILON :: real where
  "OFFSET_EPSILON = binary64 (1 / 10 ^ 6)"

definition offsetVector :: "vec3 \<Rightarrow> vec3" where
  "offsetVector projectionVector =
     (let absX = \<bar>vx projectionVector\<bar>; absY = \<bar>vy projectionVector\<bar>; absZ = \<bar>vz projectionVector\<bar>
      in if absX \<ge> absY \<and> absX \<ge> absZ then Vector3 OFFSET_EPSILON 0 0
         else if absY \<ge> absX \<and> absY \<ge> absZ then Vector3 0 OFFSET_EPSILON 0
         else Vector3 0 0 OFFSET_EPSILON)"

text \<open>
  The \<open>intersectsTriangle\<close> callback of the detector, for the outer loop's triangle
  \<open>tri\<close> (already updated) and the list \<open>edges\<close> it pushes to. It never asks the
  traversal to stop. The two \<open>add(offsetVector)\<close> calls are additions of JavaScript
  numbers.
\<close>

definition intersectionCallback :: "env \<Rightarrow> vec3 \<Rightarrow> triangle \<Rightarrow> triangle \<Rightarrow> line3 list \<Rightarrow> bool \<times> line3 list" where
  "intersectionCallback E offs tri tri2 edges =
     (if triEquals tri tri2 then (False, edges)
      else let tri2' = (if needsUpdate tri2 then update tri2 else tri2)
           in if \<bar>dot (plane_normal tri) (plane_normal tri2')\<bar> > 1 - 1 / 10 ^ 6 then (False, edges)
              else (case ext_intersectsTriangle E tri tri2' of
                      None \<Rightarrow> (False, edges)
                    | Some l \<Rightarrow>
                        if \<not> isLineTriangleEdge tri l \<and> \<not> isLineTriangleEdge tri2' l
                        then (False, edges @ [Line3 (addFloat (lstart l) offs) (addFloat (lend l) offs)])
                        else (False, edges)))"

text \<open>One iteration of the outer loop, and the loop over the mesh's triangles.\<close>

definition intersectionStep :: "env \<Rightarrow> bvh \<Rightarrow> vec3 \<Rightarrow> line3 list \<Rightarrow> (vec3 \<times> vec3 \<times> vec3) \<Rightarrow> line3 list" where
  "intersectionStep E b offs edges abc =
     (case abc of (p, q, r) \<Rightarrow>
        let tri = update (mkTriangle p q r)
        in snd (shapecast (\<lambda>box. ext_boxIntersectsTriangle E box tri)
                          (intersectionCallback E offs tri) (leaves b) edges))"

definition generateIntersectionEdges :: "env \<Rightarrow> bvh \<Rightarrow> vec3 \<Rightarrow> line3 list" where
  "generateIntersectionEdges E b projectionVector =
     foldl (intersectionStep E b (offsetVector projectionVector)) [] (geometry b)"


text \<open>
  What one callback invocation pushes for the ordered pair \<open>(tri, tri2)\<close>, and the
  triangles a traversal reaches under an admissibility predicate.
\<close>

definition emitted :: "env \<Rightarrow> vec3 \<Rightarrow> triangle \<Rightarrow> triangle \<Rightarrow> line3 list" where
  "emitted E offs tri tri2 = snd (intersectionCallback E offs tri tri2 [])"

definition reached :: "(box3 \<Rightarrow> bool) \<Rightarrow> leaf list \<Rightarrow> triangle list" where
  "reached intersectsBounds ls = map snd (filter (\<lambda>l. list_all intersectsBounds (fst l)) ls)"

definition outerTriangle :: "(vec3 \<times> vec3 \<times> vec3) \<Rightarrow> triangle" where
  "outerTriangle abc = (case abc of (p, q, r) \<Rightarrow> update (mkTriangle p q r))"

lemma intersectionCallback_emitted:
  "intersectionCallback E offs tri tri2 edges = (False, edges @ emitted E offs tri tri2)"
  by (simp add: intersectionCallback_def emitted_def Let_def split: option.splits)

lemma shapecast_intersectionCallback:
  "shapecast ib (intersectionCallback E offs tri) ls edges =
     (False, edges @ concat (map (emitted E offs tri) (reached ib ls)))"
proof (induction ls arbitrary: edges)
  case Nil
  show ?case by (simp add: reached_def)
next
  case (Cons l ls)
  obtain boxes tri2 where l: "l = (boxes, tri2)" by (cases l)
  show ?case
    using Cons.IH by (simp add: l reached_def intersectionCallback_emitted)
qed

lemma intersectionStep_emitted:
  "intersectionStep E b offs edges abc =
     edges @ concat (map (emitted E offs (outerTriangle abc))
                         (reached (\<lambda>box. ext_boxIntersectsTriangle E box (outerTriangle abc)) (leaves b)))"
  by (cases abc) (simp add: intersectionStep_def outerTriangle_def Let_def shapecast_intersectionCallback)

lemma foldl_intersectionStep:
  "foldl (intersectionStep E b offs) edges ts =
     edges @ concat (map (\<lambda>abc. concat (map (emitted E offs (outerTriangle abc))
                         (reached (\<lambda>box. ext_boxIntersectsTriangle E box (outerTriangle abc)) (leaves b)))) ts)"
  by (induction ts arbitrary: edges) (simp_all add: intersectionStep_emitted)

lemma OFFSET_EPSILON_value: "OFFSET_EPSILON = 4722366482869645 / 2 ^ 72"
proof -
  have r: "rne (1 / 10 ^ 6 * 2 ^ 72) = 4722366482869645"
    by (rule rne_near) simp_all
  have "binary64 (1 / 10 ^ 6) = of_int (rne (1 / 10 ^ 6 * 2 powr (52 - of_int (- 20)))) * 2 powr (of_int (- 20) - 52)"
    by (rule binary64_binade) (simp_all add: powr_minus_divide)
  also have "\<dots> = of_int (rne (1 / 10 ^ 6 * 2 ^ 72)) * (1 / 2 ^ 72)"
    by (simp add: powr_minus_divide)
  finally show ?thesis unfolding OFFSET_EPSILON_def by (simp only: r)
qed

text \<open>Added to zero the offset stays as it is.\<close>

lemma binary64_OFFSET_EPSILON: "binary64 OFFSET_EPSILON = OFFSET_EPSILON"
proof -
  have r: "rne (4722366482869645 / 2 ^ 72 * 2 ^ 72) = 4722366482869645"
    using rne_int [of 4722366482869645] by simp
  have "binary64 (4722366482869645 / 2 ^ 72)
          = of_int (rne (4722366482869645 / 2 ^ 72 * 2 powr (52 - of_int (- 20)))) * 2 powr (of_int (- 20) - 52)"
    by (rule binary64_binade) (simp_all add: powr_minus_divide)
  also have "\<dots> = of_int (rne (4722366482869645 / 2 ^ 72 * 2 ^ 72)) * (1 / 2 ^ 72)"
    by (simp add: powr_minus_divide)
  finally show ?thesis unfolding OFFSET_EPSILON_value by (simp only: r)
qed

text \<open>
  At \<open>2 ^ 36 = 68719476736\<close> the spacing of JavaScript numbers is \<open>2 ^ -16\<close>, more than
  twice the offset: the sum is rounded back to \<open>2 ^ 36\<close>.
\<close>

lemma binary64_absorbs: "binary64 (68719476736 + OFFSET_EPSILON) = 68719476736"
proof -
  have r: "rne ((68719476736 + 4722366482869645 / 2 ^ 72) * 2 ^ 16) = 4503599627370496"
    by (rule rne_near) simp_all
  have "binary64 (68719476736 + 4722366482869645 / 2 ^ 72)
          = of_int (rne ((68719476736 + 4722366482869645 / 2 ^ 72) * 2 powr (52 - of_int 36)))
              * 2 powr (of_int 36 - 52)"
    by (rule binary64_binade) simp_all
  also have "\<dots> = of_int (rne ((68719476736 + 4722366482869645 / 2 ^ 72) * 2 ^ 16)) * (1 / 2 ^ 16)"
    by (simp add: powr_minus_divide)
  finally show ?thesis unfolding OFFSET_EPSILON_value by (simp only: r) simp
qed

lemma emitted_cases:
  assumes "e \<in> set (emitted E offs tri tri2)"
  shows "\<exists>l. ext_intersectsTriangle E tri (if needsUpdate tri2 then update tri2 else tri2) = Some l
             \<and> e = Line3 (addFloat (lstart l) offs) (addFloat (lend l) offs)"
  using assms
  by (auto simp: emitted_def intersectionCallback_def Let_def split: if_splits option.splits)

lemma offsetVector_cases:
  "(offsetVector pv = Vector3 OFFSET_EPSILON 0 0 \<and> \<bar>vx pv\<bar> \<ge> \<bar>vy pv\<bar> \<and> \<bar>vx pv\<bar> \<ge> \<bar>vz pv\<bar>)
   \<or> (offsetVector pv = Vector3 0 OFFSET_EPSILON 0 \<and> \<bar>vy pv\<bar> \<ge> \<bar>vx pv\<bar> \<and> \<bar>vy pv\<bar> \<ge> \<bar>vz pv\<bar>)
   \<or> (offsetVector pv = Vector3 0 0 OFFSET_EPSILON \<and> \<bar>vz pv\<bar> \<ge> \<bar>vx pv\<bar> \<and> \<bar>vz pv\<bar> \<ge> \<bar>vy pv\<bar>)"
  by (simp add: offsetVector_def Let_def) linarith

text \<open>
  C10 (as amended). The offset vector is \<open>OFFSET_EPSILON = 1e-6\<close> along one coordinate
  axis, in its positive direction, and zero along the other two; the projection vector
  has no component of larger absolute value than the one on that axis. Every edge the
  detector emits is the segment that the triangle-triangle intersection returned for
  the outer triangle and some triangle of the index, with the offset vector added to
  both endpoints in the arithmetic of JavaScript numbers. The sum need not differ from
  the endpoint: at the coordinate \<open>2 ^ 36\<close> the addition absorbs the offset.
\<close>

theorem generateIntersectionEdges_offset:
  "((offsetVector pv = Vector3 OFFSET_EPSILON 0 0 \<and> \<bar>vx pv\<bar> \<ge> \<bar>vy pv\<bar> \<and> \<bar>vx pv\<bar> \<ge> \<bar>vz pv\<bar>)
    \<or> (offsetVector pv = Vector3 0 OFFSET_EPSILON 0 \<and> \<bar>vy pv\<bar> \<ge> \<bar>vx pv\<bar> \<and> \<bar>vy pv\<bar> \<ge> \<bar>vz pv\<bar>)
    \<or> (offsetVector pv = Vector3 0 0 OFFSET_EPSILON \<and> \<bar>vz pv\<bar> \<ge> \<bar>vx pv\<bar> \<and> \<bar>vz pv\<bar> \<ge> \<bar>vy pv\<bar>))
   \<and> (\<forall>e \<in> set (generateIntersectionEdges E b pv).
         \<exists>abc \<in> set (geometry b). \<exists>lf \<in> set (leaves b). \<exists>l.
            ext_intersectsTriangle E (outerTriangle abc)
                (if needsUpdate (snd lf) then update (snd lf) else snd lf) = Some l
          \<and> lstart e = addFloat (lstart l) (offsetVector pv)
          \<and> lend e = addFloat (lend l) (offsetVector pv))
   \<and> binary64 (2 ^ 36 + OFFSET_EPSILON) = 2 ^ 36"
proof (intro conjI ballI)
  show "(offsetVector pv = Vector3 OFFSET_EPSILON 0 0 \<and> \<bar>vx pv\<bar> \<ge> \<bar>vy pv\<bar> \<and> \<bar>vx pv\<bar> \<ge> \<bar>vz pv\<bar>)
    \<or> (offsetVector pv = Vector3 0 OFFSET_EPSILON 0 \<and> \<bar>vy pv\<bar> \<ge> \<bar>vx pv\<bar> \<and> \<bar>vy pv\<bar> \<ge> \<bar>vz pv\<bar>)
    \<or> (offsetVector pv = Vector3 0 0 OFFSET_EPSILON \<and> \<bar>vz pv\<bar> \<ge> \<bar>vx pv\<bar> \<and> \<bar>vz pv\<bar> \<ge> \<bar>vy pv\<bar>)"
    by (rule offsetVector_cases)
next
  fix e assume "e \<in> set (generateIntersectionEdges E b pv)"
  then obtain abc tri2 where abc: "abc \<in> set (geometry b)"
    and tri2: "tri2 \<in> set (reached (\<lambda>box. ext_boxIntersectsTriangle E box (outerTriangle abc)) (leaves b))"
    and e: "e \<in> set (emitted E (offsetVector pv) (outerTriangle abc) tri2)"
    by (auto simp: generateIntersectionEdges_def foldl_intersectionStep)
  from tri2 obtain lf where lf: "lf \<in> set (leaves b)" "tri2 = snd lf"
    by (auto simp: reached_def)
  from emitted_cases [OF e] obtain l where
    l: "ext_intersectsTriangle E (outerTriangle abc) (if needsUpdate tri2 then update tri2 else tri2) = Some l"
       "e = Line3 (addFloat (lstart l) (offsetVector pv)) (addFloat (lend l) (offsetVector pv))"
    by blast
  show "\<exists>abc \<in> set (geometry b). \<exists>lf \<in> set (leaves b). \<exists>l.
            ext_intersectsTriangle E (outerTriangle abc)
                (if needsUpdate (snd lf) then update (snd lf) else snd lf) = Some l
          \<and> lstart e = addFloat (lstart l) (offsetVector pv)
          \<and> lend e = addFloat (lend l) (offsetVector pv)"
    using abc lf l by (intro bexI [of _ abc] bexI [of _ lf] exI [of _ l]) auto
next
  show "binary64 (2 ^ 36 + OFFSET_EPSILON) = 2 ^ 36"
    using binary64_absorbs by simp
qed

subsection \<open>Two crossing triangles\<close>

text \<open>
  A mesh of two triangles that cross each other: \<open>crossP\<close> lies in the plane \<open>y = 0\<close>,
  \<open>crossQ\<close> in the plane \<open>x = 0\<close>, and they meet in the segment from \<open>(0, 0, -1/2)\<close> to
  \<open>(0, 0, 1/2)\<close>. The library routines are instantiated on this mesh: the intersection
  routine returns that segment for the two triangles in either order, every box test
  succeeds, no feature edges are extracted, the plane clip never has a result, and the
  interval helpers are the ones modelled above.
\<close>

definition crossP :: "vec3 \<times> vec3 \<times> vec3" where
  "crossP = (Vector3 (-1) 0 (-1), Vector3 1 0 (-1), Vector3 0 0 1)"

definition crossQ :: "vec3 \<times> vec3 \<times> vec3" where
  "crossQ = (Vector3 0 (-1) (-1/2), Vector3 0 1 (-1/2), Vector3 0 0 (1/2))"

definition crossLine :: line3 where
  "crossLine = Line3 (Vector3 0 0 (-1/2)) (Vector3 0 0 (1/2))"

definition vertices :: "triangle \<Rightarrow> vec3 \<times> vec3 \<times> vec3" where
  "vertices t = (tri_a t, tri_b t, tri_c t)"

definition leafP :: triangle where
  "leafP = mkTriangle (Vector3 (-1) 0 (-1)) (Vector3 1 0 (-1)) (Vector3 0 0 1)"

definition leafQ :: triangle where
  "leafQ = mkTriangle (Vector3 0 (-1) (-1/2)) (Vector3 0 1 (-1/2)) (Vector3 0 0 (1/2))"

definition crossBvh :: bvh where
  "crossBvh = \<lparr> geometry = [crossP, crossQ], leaves = [([], leafP), ([], leafQ)] \<rparr>"

definition crossEnv :: env where
  "crossEnv = \<lparr> ext_boxIntersectsTriangle = (\<lambda>box tri. True),
                ext_intersectsTriangle = (\<lambda>t u.
                   if (vertices t = crossP \<and> vertices u = crossQ) \<or> (vertices t = crossQ \<and> vertices u = crossP)
                   then Some crossLine else None),
                ext_rayIntersectBox = (\<lambda>origin direction box. None),
                ext_generateEdges = (\<lambda>g pv angle. []),
                ext_trimToBeneathTriPlane = (\<lambda>tri line pv. None),
                ext_appendOverlapRange = appendOverlapRange,
                ext_compressEdgeOverlaps = compressEdgeOverlaps,
                ext_overlapsToLines = overlapsToLines \<rparr>"

text \<open>
  The edge the detector emits for the crossing, seen along \<open>(0, 1, 0)\<close>: the segment
  with the offset in the Y coordinate.
\<close>

definition crossEdge :: line3 where
  "crossEdge = Line3 (Vector3 0 OFFSET_EPSILON (-1/2)) (Vector3 0 OFFSET_EPSILON (1/2))"

lemma sqrt_16: "sqrt 16 = 4"
  using real_sqrt_abs [of 4] by simp

lemmas vec_defs = add_def subVectors_def multiplyScalar_def dot_def cross_def lengthSq_def
  vlength_def normalize_def distanceToSquared_def delta_def

lemmas cross_defs = crossP_def crossQ_def leafP_def leafQ_def crossLine_def crossBvh_def crossEnv_def vertices_def

lemmas float_simps = addFloat_def binary64_zero binary64_half binary64_8192
  binary64_OFFSET_EPSILON binary64_absorbs

lemma cross_run:
  "generateIntersectionEdges crossEnv crossBvh (Vector3 0 1 0) = [crossEdge, crossEdge]"
  by (simp add: generateIntersectionEdges_def intersectionStep_def intersectionCallback_def crossEdge_def
        triEquals_def mkTriangle_def update_def coplanarNormal_def isLineTriangleEdge_def points_def
        offsetVector_def EPSILON_def Let_def sqrt_16 vec_defs cross_defs float_simps)

lemma cross_emitted:
  "emitted crossEnv (offsetVector (Vector3 0 1 0)) (outerTriangle crossP) leafP = []"
  "emitted crossEnv (offsetVector (Vector3 0 1 0)) (outerTriangle crossP) leafQ = [crossEdge]"
  "emitted crossEnv (offsetVector (Vector3 0 1 0)) (outerTriangle crossQ) leafP = [crossEdge]"
  "emitted crossEnv (offsetVector (Vector3 0 1 0)) (outerTriangle crossQ) leafQ = []"
  by (simp_all add: emitted_def outerTriangle_def intersectionCallback_def crossEdge_def
        triEquals_def mkTriangle_def update_def coplanarNormal_def isLineTriangleEdge_def points_def
        offsetVector_def EPSILON_def Let_def sqrt_16 vec_defs cross_defs float_simps)

theorem generateIntersectionEdges_offset_witness:
  "offsetVector (Vector3 0 1 0) = Vector3 0 OFFSET_EPSILON 0
   \<and> crossEdge \<in> set (generateIntersectionEdges crossEnv crossBvh (Vector3 0 1 0))
   \<and> ext_intersectsTriangle crossEnv (outerTriangle crossP) (update leafQ) = Some crossLine
   \<and> lstart crossEdge = addFloat (lstart crossLine) (offsetVector (Vector3 0 1 0))
   \<and> lend crossEdge = addFloat (lend crossLine) (offsetVector (Vector3 0 1 0))"
  using generateIntersectionEdges_offset [of "Vector3 0 1 0" crossEnv crossBvh] cross_run
  by (simp add: crossEdge_def offsetVector_def outerTriangle_def mkTriangle_def
        update_def cross_defs float_simps)

subsection \<open>Two crossing triangles far from the origin\<close>

text \<open>
  The same crossing, scaled by \<open>2 ^ 14\<close> and moved to \<open>x = 2 ^ 36\<close>; every coordinate is
  a number a single-precision position buffer holds exactly. The triangles meet in the
  segment from \<open>(2 ^ 36, 0, -8192)\<close> to \<open>(2 ^ 36, 0, 8192)\<close>, and the mesh is seen along
  the X axis.
\<close>

definition farP :: "vec3 \<times> vec3 \<times> vec3" where
  "farP = (Vector3 (2 ^ 36 - 16384) 0 (- 16384), Vector3 (2 ^ 36 + 16384) 0 (- 16384),
           Vector3 (2 ^ 36) 0 16384)"

definition farQ :: "vec3 \<times> vec3 \<times> vec3" where
  "farQ = (Vector3 (2 ^ 36) (- 16384) (- 8192), Vector3 (2 ^ 36) 16384 (- 8192),
           Vector3 (2 ^ 36) 0 8192)"

definition farLine :: line3 where
  "farLine = Line3 (Vector3 (2 ^ 36) 0 (- 8192)) (Vector3 (2 ^ 36) 0 8192)"

definition farLeafP :: triangle where
  "farLeafP = mkTriangle (Vector3 (2 ^ 36 - 16384) 0 (- 16384)) (Vector3 (2 ^ 36 + 16384) 0 (- 16384))
                (Vector3 (2 ^ 36) 0 16384)"

definition farLeafQ :: triangle where
  "farLeafQ = mkTriangle (Vector3 (2 ^ 36) (- 16384) (- 8192)) (Vector3 (2 ^ 36) 16384 (- 8192))
                (Vector3 (2 ^ 36) 0 8192)"

definition farBvh :: bvh where
  "farBvh = \<lparr> geometry = [farP, farQ], leaves = [([], farLeafP), ([], farLeafQ)] \<rparr>"

definition farEnv :: env where
  "farEnv = crossEnv \<lparr> ext_intersectsTriangle := (\<lambda>t u.
                   if (vertices t = farP \<and> vertices u = farQ) \<or> (vertices t = farQ \<and> vertices u = farP)
                   then Some farLine else None) \<rparr>"

lemma sqrt_far: "sqrt 1152921504606846976 = 1073741824" "sqrt 288230376151711744 = 536870912"
  using real_sqrt_abs [of 1073741824] real_sqrt_abs [of 536870912] by simp_all

lemmas far_defs = farP_def farQ_def farLeafP_def farLeafQ_def farLine_def farBvh_def farEnv_def
  crossEnv_def vertices_def

lemma far_run:
  "generateIntersectionEdges farEnv farBvh (Vector3 1 0 0) = [farLine, farLine]"
  by (simp add: generateIntersectionEdges_def intersectionStep_def intersectionCallback_def
        triEquals_def mkTriangle_def update_def coplanarNormal_def isLineTriangleEdge_def points_def
        offsetVector_def EPSILON_def Let_def sqrt_far vec_defs far_defs float_simps)

text \<open>
  C10 (as stated) fails far from the origin: both visits of the pair emit the segment
  of the intersection itself, because \<open>2 ^ 36 + 1e-6\<close> is \<open>2 ^ 36\<close> in the arithmetic
  of JavaScript numbers and the other two coordinates receive zero.
\<close>

theorem generateIntersectionEdges_offset_absorbed:
  "generateIntersectionEdges farEnv farBvh (Vector3 1 0 0) = [farLine, farLine]
   \<and> ext_intersectsTriangle farEnv (outerTriangle farP) (update farLeafQ) = Some farLine
   \<and> ext_intersectsTriangle farEnv (outerTriangle farQ) (update farLeafP) = Some farLine"
  using far_run
  by (simp add: outerTriangle_def mkTriangle_def update_def far_defs)

text \<open>
  C2 (as amended). The detector keeps no record of the triangles or pairs it has
  handled: its result is the concatenation, over the triangles \<open>T\<close> of the mesh in order
  and the triangles \<open>T2\<close> the traversal for \<open>T\<close> reaches in traversal order, of what the
  callback emits for the ordered pair \<open>(T, T2)\<close>, and that depends on \<open>T\<close> and \<open>T2\<close>
  alone. The callback emits nothing when \<open>T2\<close> has the vertices of \<open>T\<close>, when the two
  planes are near-parallel, when the intersection routine finds no segment, or when
  the segment is a boundary edge of \<open>T\<close> or of \<open>T2\<close>; otherwise it emits exactly one
  edge, the segment with the offset added. Every ordered pair is thus handled once,
  and two triangles that reach each other are handled once from each side.
\<close>

theorem generateIntersectionEdges_ordered_pairs:
  "generateIntersectionEdges E b pv =
     concat (map (\<lambda>abc. concat (map (emitted E (offsetVector pv) (outerTriangle abc))
                    (reached (\<lambda>box. ext_boxIntersectsTriangle E box (outerTriangle abc)) (leaves b))))
                 (geometry b))
   \<and> emitted E offs tri tri2 =
       (let tri2' = (if needsUpdate tri2 then update tri2 else tri2)
        in if triEquals tri tri2 \<or> \<bar>dot (plane_normal tri) (plane_normal tri2')\<bar> > 1 - 1 / 10 ^ 6 then []
           else (case ext_intersectsTriangle E tri tri2' of
                   None \<Rightarrow> []
                 | Some l \<Rightarrow>
                     if isLineTriangleEdge tri l \<or> isLineTriangleEdge tri2' l then []
                     else [Line3 (addFloat (lstart l) offs) (addFloat (lend l) offs)]))"
  by (simp add: generateIntersectionEdges_def foldl_intersectionStep emitted_def
        intersectionCallback_def Let_def split: option.splits)

theorem generateIntersectionEdges_ordered_pairs_witness:
  "generateIntersectionEdges crossEnv crossBvh (Vector3 0 1 0) =
     emitted crossEnv (offsetVector (Vector3 0 1 0)) (outerTriangle crossP) leafQ
   @ emitted crossEnv (offsetVector (Vector3 0 1 0)) (outerTriangle crossQ) leafP
   \<and> triEquals (outerTriangle crossP) leafP
   \<and> emitted crossEnv (offsetVector (Vector3 0 1 0)) (outerTriangle crossP) leafP = []
   \<and> emitted crossEnv (offsetVector (Vector3 0 1 0)) (outerTriangle crossP) leafQ = [crossEdge]
   \<and> emitted crossEnv (offsetVector (Vector3 0 1 0)) (outerTriangle crossQ) leafP = [crossEdge]"
proof -
  have r: "reached (\<lambda>box. ext_boxIntersectsTriangle crossEnv box t) (leaves crossBvh)
             = [leafP, leafQ]" for t
    by (simp add: reached_def crossBvh_def)
  have g: "geometry crossBvh = [crossP, crossQ]"
    by (simp add: crossBvh_def)
  have t: "triEquals (outerTriangle crossP) leafP"
    by (simp add: triEquals_def outerTriangle_def crossP_def leafP_def mkTriangle_def update_def)
  from generateIntersectionEdges_ordered_pairs [of crossEnv crossBvh "Vector3 0 1 0"]
  have "generateIntersectionEdges crossEnv crossBvh (Vector3 0 1 0) =
     concat (map (\<lambda>abc. concat (map (emitted crossEnv (offsetVector (Vector3 0 1 0)) (outerTriangle abc))
                    (reached (\<lambda>box. ext_boxIntersectsTriangle crossEnv box (outerTriangle abc)) (leaves crossBvh))))
                 (geometry crossBvh))"
    by blast
  then have "generateIntersectionEdges crossEnv crossBvh (Vector3 0 1 0) =
     emitted crossEnv (offsetVector (Vector3 0 1 0)) (outerTriangle crossP) leafQ
   @ emitted crossEnv (offsetVector (Vector3 0 1 0)) (outerTriangle crossQ) leafP"
    by (simp add: r g cross_emitted)
  with t show ?thesis by (simp add: cross_emitted)
qed

text \<open>
  C2 (as stated) fails on the two crossing triangles: the pair is handled as
  \<open>(crossP, crossQ)\<close> and again as \<open>(crossQ, crossP)\<close>, and the candidate list holds the
  segment of their intersection twice (here with the same orientation on both visits;
  the second visit pushes its segment whatever orientation the intersection routine
  gives it).
\<close>

theorem generateIntersectionEdges_pair_twice:
  "generateIntersectionEdges crossEnv crossBvh (Vector3 0 1 0) = [crossEdge, crossEdge]
   \<and> \<not> distinct (generateIntersectionEdges crossEnv crossBvh (Vector3 0 1 0))"
  using cross_run by simp

section \<open>Projected overlap solver (getProjectedLineOverlap)\<close>

definition AREA_EPSILON :: real where
  "AREA_EPSILON = 1 / 10 ^ 16"

definition DIST_EPSILON :: real where
  "DIST_EPSILON = 1 / 10 ^ 16"

text \<open>A three.js \<open>Plane\<close>: unit normal and constant; the operations the solver calls.\<close>

datatype plane = Plane (pnormal: vec3) (pconstant: real)

definition setFromNormalAndCoplanarPoint :: "vec3 \<Rightarrow> vec3 \<Rightarrow> plane" where
  "setFromNormalAndCoplanarPoint n p = Plane n (- dot p n)"

definition distanceToPoint :: "plane \<Rightarrow> vec3 \<Rightarrow> real" where
  "distanceToPoint pl p = dot (pnormal pl) p + pconstant pl"

text \<open>
  \<open>Plane.intersectLine\<close>: \<open>None\<close> is the JavaScript \<open>null\<close>. A segment parallel to the
  plane intersects only if its start lies exactly on it.
\<close>

definition intersectLine :: "plane \<Rightarrow> line3 \<Rightarrow> vec3 option" where
  "intersectLine pl l =
     (let direction = delta l; denominator = dot (pnormal pl) direction
      in if denominator = 0 then (if distanceToPoint pl (lstart l) = 0 then Some (lstart l) else None)
         else let t = - (dot (lstart l) (pnormal pl) + pconstant pl) / denominator
              in if t < 0 \<or> t > 1 then None
                 else Some (add (multiplyScalar direction t) (lstart l)))"

text \<open>
  Flattening: the coordinate of the dominant component of the projection vector is set
  to zero, by the same cascade of comparisons for the triangle and for the line.
\<close>

definition flattenPoint :: "vec3 \<Rightarrow> vec3 \<Rightarrow> vec3" where
  "flattenPoint projectionVector p =
     (let absX = \<bar>vx projectionVector\<bar>; absY = \<bar>vy projectionVector\<bar>; absZ = \<bar>vz projectionVector\<bar>
      in if absX \<ge> absY \<and> absX \<ge> absZ then Vector3 0 (vy p) (vz p)
         else if absY \<ge> absX \<and> absY \<ge> absZ then Vector3 (vx p) 0 (vz p)
         else Vector3 (vx p) (vy p) 0)"

definition flattenTriangle :: "vec3 \<Rightarrow> triangle \<Rightarrow> triangle" where
  "flattenTriangle projectionVector tri =
     update (tri\<lparr> tri_a := flattenPoint projectionVector (tri_a tri),
                   tri_b := flattenPoint projectionVector (tri_b tri),
                   tri_c := flattenPoint projectionVector (tri_c tri) \<rparr>)"

definition flattenLine :: "vec3 \<Rightarrow> line3 \<Rightarrow> line3" where
  "flattenLine projectionVector line =
     Line3 (flattenPoint projectionVector (lstart line)) (flattenPoint projectionVector (lend line))"

text \<open>
  The plane through the flattened line, orthogonal to the flattened triangle's plane.
\<close>

definition orthoPlane :: "line3 \<Rightarrow> triangle \<Rightarrow> plane" where
  "orthoPlane fl ft =
     setFromNormalAndCoplanarPoint
       (normalize (cross (normalize (delta fl)) (plane_normal ft))) (lstart fl)"

text \<open>
  The loop over the three edges of the flattened triangle. The state is the count of
  crossing points found and the two ends of \<open>_triLine\<close>; the loop is left when the count
  reaches two. In the body either \<open>intersectLine\<close> has written the crossing point, or
  the start of the edge lies on the plane and is taken.
\<close>

fun sweepEdges :: "plane \<Rightarrow> vec3 list \<Rightarrow> nat list \<Rightarrow> nat \<times> vec3 \<times> vec3 \<Rightarrow> nat \<times> vec3 \<times> vec3" where
  "sweepEdges pl pts [] st = st"
| "sweepEdges pl pts (i # is) (intersectCount, triStart, triEnd) =
     (let p1 = pts ! i; p2 = pts ! ((i + 1) mod 3);
          startIntersects = (\<bar>distanceToPoint pl p1\<bar> < DIST_EPSILON);
          endIntersects = (\<bar>distanceToPoint pl p2\<bar> < DIST_EPSILON);
          edgeIntersects = intersectLine pl (Line3 p1 p2)
      in if (edgeIntersects \<noteq> None \<and> \<not> endIntersects) \<or> startIntersects then
           let point = (case edgeIntersects of None \<Rightarrow> p1 | Some q \<Rightarrow> q);
               triStart' = (if intersectCount = 0 then point else triStart);
               triEnd' = (if intersectCount = 0 then triEnd else point)
           in if intersectCount + 1 = 2 then (intersectCount + 1, triStart', triEnd')
              else sweepEdges pl pts is (intersectCount + 1, triStart', triEnd')
         else sweepEdges pl pts is (intersectCount, triStart, triEnd))"

text \<open>
  The one-dimensional spans along the direction of the flattened line, measured from its
  start: \<open>(s1, e1)\<close> of the line and \<open>(s2, e2)\<close> of the triangle's crossing, the latter
  turned to face the same way. \<open>None\<close> when the sweep found fewer than two crossing
  points.
\<close>

definition spans :: "line3 \<Rightarrow> triangle \<Rightarrow> (real \<times> real \<times> real \<times> real) option" where
  "spans fl ft =
     (case sweepEdges (orthoPlane fl ft) (points ft) [0, 1, 2] (0, Vector3 0 0 0, Vector3 0 0 0) of
        (intersectCount, triStart, triEnd) \<Rightarrow>
          if intersectCount = 2 then
            let dir = normalize (delta fl);
                triDir = normalize (delta (Line3 triStart triEnd));
                triLine = (if dot dir triDir < 0 then Line3 triEnd triStart else Line3 triStart triEnd);
                s1 = 0;
                e1 = dot (subVectors (lend fl) (lstart fl)) dir;
                s2 = dot (subVectors (lstart triLine) (lstart fl)) dir;
                e2 = dot (subVectors (lend triLine) (lstart fl)) dir
            in Some (s1, e1, s2, e2)
          else None)"

definition getProjectedLineOverlap :: "line3 \<Rightarrow> triangle \<Rightarrow> vec3 \<Rightarrow> line3 option" where
  "getProjectedLineOverlap line triangle projectionVector =
     (let ft = flattenTriangle projectionVector triangle;
          fl = flattenLine projectionVector line
      in if getArea ft \<le> AREA_EPSILON then None
         else (case spans fl ft of
                 None \<Rightarrow> None
               | Some (s1, e1, s2, e2) \<Rightarrow>
                   let separated1 = (e1 \<le> s2); separated2 = (e2 \<le> s1)
                   in if separated1 \<or> separated2 then None
                      else Some (Line3 (line_at line (max s1 s2 / distance fl))
                                       (line_at line (min e1 e2 / distance fl)))))"

lemmas plane_defs = setFromNormalAndCoplanarPoint_def distanceToPoint_def intersectLine_def

lemmas overlap_defs = getProjectedLineOverlap_def spans_def orthoPlane_def flattenLine_def
  flattenTriangle_def flattenPoint_def AREA_EPSILON_def DIST_EPSILON_def getArea_def

definition touchLine :: line3 where
  "touchLine = Line3 (Vector3 0 0 0) (Vector3 1 0 0)"

definition touchTri :: triangle where
  "touchTri = mkTriangle (Vector3 1 1 0) (Vector3 2 1 (-1)) (Vector3 2 1 1)"

lemma touch_spans:
  "spans (flattenLine (Vector3 0 1 0) touchLine) (flattenTriangle (Vector3 0 1 0) touchTri) = Some (0, 1, 1, 2)"
  by (simp add: overlap_defs plane_defs touchLine_def touchTri_def mkTriangle_def update_def
       coplanarNormal_def points_def Let_def vec_defs)


lemma vlength_nonneg: "0 \<le> vlength v"
  by (simp add: vlength_def lengthSq_nonneg)

lemma vlength_sq: "vlength v * vlength v = lengthSq v"
  by (simp add: vlength_def lengthSq_nonneg)

lemma lengthSq_zero: "lengthSq v = 0 \<Longrightarrow> v = Vector3 0 0 0"
proof (cases v)
  case (Vector3 a b c)
  assume "lengthSq v = 0"
  then have "a * a + b * b + c * c = 0" by (simp add: Vector3 lengthSq_def)
  moreover have "0 \<le> a * a" "0 \<le> b * b" "0 \<le> c * c" by simp_all
  ultimately have "a * a = 0 \<and> b * b = 0 \<and> c * c = 0" by linarith
  then show ?thesis by (simp add: Vector3)
qed

lemma dot_multiplyScalar: "dot u (multiplyScalar v k) = k * dot u v"
  by (simp add: dot_def multiplyScalar_def algebra_simps)

lemma dot_self: "dot v v = lengthSq v"
  by (simp add: dot_def lengthSq_def)

lemma dot_normalize_self: "dot v (normalize v) = vlength v"
proof (cases "vlength v = 0")
  case True
  then have "lengthSq v = 0" by (simp add: vlength_def)
  then have "v = Vector3 0 0 0" by (rule lengthSq_zero)
  then show ?thesis by (simp add: normalize_def dot_def multiplyScalar_def vlength_def lengthSq_def)
next
  case False
  then have "dot v (normalize v) = lengthSq v / vlength v"
    by (simp add: normalize_def dot_multiplyScalar dot_self)
  also have "\<dots> = vlength v" using False vlength_sq [of v] by (simp add: divide_simps)
  finally show ?thesis .
qed

lemma normalize_zero: "vlength v = 0 \<Longrightarrow> normalize v = Vector3 0 0 0"
proof -
  assume "vlength v = 0"
  then have "lengthSq v = 0" by (simp add: vlength_def)
  then have "v = Vector3 0 0 0" by (rule lengthSq_zero)
  then show ?thesis by (simp add: normalize_def multiplyScalar_def vlength_def lengthSq_def)
qed

lemma dot_normalize_sign: "dot u (normalize w) < 0 \<longleftrightarrow> dot u w < 0"
proof -
  obtain k where k: "0 < k" "normalize w = multiplyScalar w k"
  proof (cases "vlength w = 0")
    case True
    then have "normalize w = multiplyScalar w 1" by (simp add: normalize_def)
    then show ?thesis using that [of 1] by simp
  next
    case False
    then have "0 < 1 / vlength w" using vlength_nonneg [of w] by simp
    moreover have "normalize w = multiplyScalar w (1 / vlength w)" using False by (simp add: normalize_def)
    ultimately show ?thesis using that by blast
  qed
  show ?thesis using k by (simp add: dot_multiplyScalar mult_less_0_iff)
qed

lemma distance_delta: "distance l = vlength (delta l)"
  by (simp add: distance_def vlength_def delta_def distanceToSquared_def lengthSq_def subVectors_def
        algebra_simps)

lemma distance_nonneg: "0 \<le> distance l"
  by (simp add: distance_delta vlength_nonneg)

lemma dot_subVectors_left: "dot (subVectors u v) w = dot u w - dot v w"
  by (simp add: dot_def subVectors_def algebra_simps)

lemma dot_commute: "dot u v = dot v u"
  by (simp add: dot_def algebra_simps)

text \<open>What the spans always satisfy.\<close>

lemma spans_facts:
  assumes "spans fl ft = Some (s1, e1, s2, e2)"
  shows "s1 = 0" "e1 = distance fl" "s2 \<le> e2" "distance fl = 0 \<longrightarrow> e2 = 0"
proof -
  obtain n ts te where sw:
    "sweepEdges (orthoPlane fl ft) (points ft) [0, 1, 2] (0, Vector3 0 0 0, Vector3 0 0 0) = (n, ts, te)"
    by (cases "sweepEdges (orthoPlane fl ft) (points ft) [0, 1, 2] (0, Vector3 0 0 0, Vector3 0 0 0)") auto
  define dir where "dir = normalize (delta fl)"
  define tl where "tl = (if dot dir (normalize (delta (Line3 ts te))) < 0 then Line3 te ts else Line3 ts te)"
  from assms sw have n: "n = 2"
    by (simp add: spans_def split: if_splits)
  from assms sw n have v: "s1 = 0" "e1 = dot (subVectors (lend fl) (lstart fl)) dir"
      "s2 = dot (subVectors (lstart tl) (lstart fl)) dir" "e2 = dot (subVectors (lend tl) (lstart fl)) dir"
    by (simp_all add: spans_def Let_def dir_def tl_def)
  show "s1 = 0" by (rule v)
  show "e1 = distance fl"
    using dot_normalize_self [of "delta fl"] by (simp add: v dir_def distance_delta delta_def)
  have "e2 - s2 = dot (subVectors (lend tl) (lstart tl)) dir"
    by (simp add: v dot_subVectors_left)
  also have "\<dots> \<ge> 0"
  proof (cases "dot dir (normalize (delta (Line3 ts te))) < 0")
    case True
    then have "dot dir (subVectors te ts) < 0" by (simp add: dot_normalize_sign delta_def)
    then have "dot (subVectors ts te) dir > 0"
      by (simp add: dot_def subVectors_def algebra_simps)
    with True show ?thesis by (simp add: tl_def)
  next
    case False
    then have "\<not> dot dir (subVectors te ts) < 0" by (simp add: dot_normalize_sign delta_def)
    with False show ?thesis by (simp add: tl_def dot_commute)
  qed
  finally show "s2 \<le> e2" by simp
  show "distance fl = 0 \<longrightarrow> e2 = 0"
  proof
    assume "distance fl = 0"
    then have "dir = Vector3 0 0 0" by (simp add: dir_def distance_delta normalize_zero)
    then show "e2 = 0" by (simp add: v dot_def)
  qed
qed


text \<open>
  The condition for "no overlap" in the specification's words: the flattened triangle
  has near-zero area, or the two spans, as closed intervals of the line's direction,
  have no point in common (a triangle the sweep does not cross has no span).
\<close>

definition noOverlap_spec :: "line3 \<Rightarrow> triangle \<Rightarrow> vec3 \<Rightarrow> bool" where
  "noOverlap_spec line tri projectionVector =
     (getArea (flattenTriangle projectionVector tri) \<le> AREA_EPSILON
      \<or> (case spans (flattenLine projectionVector line) (flattenTriangle projectionVector tri) of
            None \<Rightarrow> True
          | Some (s1, e1, s2, e2) \<Rightarrow> {s1 .. e1} \<inter> {s2 .. e2} = {}))"

definition overlapTri :: triangle where
  "overlapTri = mkTriangle (Vector3 (1/2) 1 0) (Vector3 (3/2) 1 (-1)) (Vector3 (3/2) 1 1)"

text \<open>
  C8 (as amended). The solver returns null exactly when the flattened triangle's area is
  at most \<open>AREA_EPSILON\<close>, or the sweep finds fewer than two crossing points, or the spans
  \<open>[s1, e1]\<close> and \<open>[s2, e2]\<close> have at most an endpoint in common (\<open>e1 \<le> s2\<close> or
  \<open>e2 \<le> s1\<close>). Otherwise it returns the part of the original, unflattened segment
  given by linear interpolation at the parameters \<open>max s1 s2 / d\<close> and \<open>min e1 e2 / d\<close>,
  \<open>d\<close> the length of the flattened segment. In particular it returns null whenever the
  area is near zero or the spans are disjoint.
\<close>

theorem getProjectedLineOverlap_result:
  "(getProjectedLineOverlap line tri pv = None \<longleftrightarrow>
      getArea (flattenTriangle pv tri) \<le> AREA_EPSILON
      \<or> spans (flattenLine pv line) (flattenTriangle pv tri) = None
      \<or> (\<exists>s1 e1 s2 e2. spans (flattenLine pv line) (flattenTriangle pv tri) = Some (s1, e1, s2, e2)
            \<and> (e1 \<le> s2 \<or> e2 \<le> s1)))
   \<and> (\<forall>r. getProjectedLineOverlap line tri pv = Some r \<longrightarrow>
         (\<exists>s1 e1 s2 e2 t0 t1.
            spans (flattenLine pv line) (flattenTriangle pv tri) = Some (s1, e1, s2, e2)
          \<and> t0 = max s1 s2 / distance (flattenLine pv line)
          \<and> t1 = min e1 e2 / distance (flattenLine pv line)
          \<and> r = Line3 (line_at line t0) (line_at line t1)))
   \<and> (noOverlap_spec line tri pv \<longrightarrow> getProjectedLineOverlap line tri pv = None)"
proof (intro conjI allI impI)
  let ?fl = "flattenLine pv line" and ?ft = "flattenTriangle pv tri"
  show "getProjectedLineOverlap line tri pv = None \<longleftrightarrow>
      getArea ?ft \<le> AREA_EPSILON \<or> spans ?fl ?ft = None
      \<or> (\<exists>s1 e1 s2 e2. spans ?fl ?ft = Some (s1, e1, s2, e2) \<and> (e1 \<le> s2 \<or> e2 \<le> s1))"
    by (auto simp: getProjectedLineOverlap_def Let_def split: option.splits)
next
  let ?fl = "flattenLine pv line" and ?ft = "flattenTriangle pv tri"
  fix r assume r: "getProjectedLineOverlap line tri pv = Some r"
  then obtain s1 e1 s2 e2 where sp: "spans ?fl ?ft = Some (s1, e1, s2, e2)"
    and ns: "\<not> e1 \<le> s2" "\<not> e2 \<le> s1"
    and rr: "r = Line3 (line_at line (max s1 s2 / distance ?fl)) (line_at line (min e1 e2 / distance ?fl))"
    by (auto simp: getProjectedLineOverlap_def Let_def split: option.splits if_splits)
  show "\<exists>s1 e1 s2 e2 t0 t1. spans ?fl ?ft = Some (s1, e1, s2, e2)
          \<and> t0 = max s1 s2 / distance ?fl \<and> t1 = min e1 e2 / distance ?fl
          \<and> r = Line3 (line_at line t0) (line_at line t1)"
    using sp rr by blast
next
  let ?fl = "flattenLine pv line" and ?ft = "flattenTriangle pv tri"
  assume spec: "noOverlap_spec line tri pv"
  show "getProjectedLineOverlap line tri pv = None"
  proof (cases "getArea ?ft \<le> AREA_EPSILON")
    case True
    then show ?thesis by (simp add: getProjectedLineOverlap_def Let_def)
  next
    case False
    show ?thesis
    proof (cases "spans ?fl ?ft")
      case None
      then show ?thesis by (simp add: getProjectedLineOverlap_def Let_def)
    next
      case (Some q)
      obtain s1 e1 s2 e2 where q: "q = (s1, e1, s2, e2)" by (cases q) auto
      note f = spans_facts [OF Some [unfolded q]]
      from spec False Some q have dis: "{s1 .. e1} \<inter> {s2 .. e2} = {}"
        by (simp add: noOverlap_spec_def)
      have "e1 \<le> s2 \<or> e2 \<le> s1"
      proof (rule ccontr)
        assume "\<not> (e1 \<le> s2 \<or> e2 \<le> s1)"
        then have "max s1 s2 \<in> {s1 .. e1} \<inter> {s2 .. e2}"
          using f distance_nonneg [of "flattenLine pv line"] by auto
        with dis show False by blast
      qed
      with Some q False show ?thesis by (auto simp: getProjectedLineOverlap_def Let_def)
    qed
  qed
qed

lemma overlap_spans:
  "spans (flattenLine (Vector3 0 1 0) touchLine) (flattenTriangle (Vector3 0 1 0) overlapTri) = Some (0, 1, 1/2, 3/2)"
  by (simp add: overlap_defs plane_defs touchLine_def overlapTri_def mkTriangle_def update_def
       coplanarNormal_def points_def Let_def vec_defs)

lemma flat_area:
  "getArea (flattenTriangle (Vector3 0 1 0) overlapTri) = 1"
  "getArea (flattenTriangle (Vector3 0 1 0) touchTri) = 1"
  by (simp_all add: overlap_defs touchTri_def overlapTri_def mkTriangle_def update_def vec_defs)

lemma flat_distance: "distance (flattenLine (Vector3 0 1 0) touchLine) = 1"
  by (simp add: distance_def flattenLine_def flattenPoint_def touchLine_def vec_defs)

theorem getProjectedLineOverlap_result_witness:
  "getProjectedLineOverlap touchLine overlapTri (Vector3 0 1 0)
     = Some (Line3 (Vector3 (1/2) 0 0) (Vector3 1 0 0))
   \<and> spans (flattenLine (Vector3 0 1 0) touchLine) (flattenTriangle (Vector3 0 1 0) overlapTri)
     = Some (0, 1, 1/2, 3/2)
   \<and> \<not> noOverlap_spec touchLine overlapTri (Vector3 0 1 0)"
proof -
  have "getProjectedLineOverlap touchLine overlapTri (Vector3 0 1 0)
     = Some (Line3 (line_at touchLine (1/2)) (line_at touchLine 1))"
    by (simp add: getProjectedLineOverlap_def overlap_spans flat_area flat_distance AREA_EPSILON_def Let_def)
  then have r: "getProjectedLineOverlap touchLine overlapTri (Vector3 0 1 0)
     = Some (Line3 (Vector3 (1/2) 0 0) (Vector3 1 0 0))"
    by (simp add: line_at_def touchLine_def vec_defs)
  from getProjectedLineOverlap_result [of touchLine overlapTri "Vector3 0 1 0"] r
  have "\<not> noOverlap_spec touchLine overlapTri (Vector3 0 1 0)" by auto
  with r overlap_spans show ?thesis by simp
qed

text \<open>
  C8 (as stated) fails where the spans touch: the segment from \<open>(0, 0, 0)\<close> to
  \<open>(1, 0, 0)\<close> has the span \<open>[0, 1]\<close>, the triangle's crossing has the span \<open>[1, 2]\<close>, the
  flattened triangle has area 1, and the spans share the point 1; the solver returns
  null.
\<close>

theorem getProjectedLineOverlap_touching:
  "getProjectedLineOverlap touchLine touchTri (Vector3 0 1 0) = None
   \<and> \<not> noOverlap_spec touchLine touchTri (Vector3 0 1 0)"
proof -
  have "(1::real) \<in> {0 .. 1} \<inter> {1 .. 2}" by simp
  then have "{0 .. 1::real} \<inter> {1 .. 2} \<noteq> {}" by blast
  then show ?thesis
    by (simp add: getProjectedLineOverlap_def noOverlap_spec_def touch_spans flat_area AREA_EPSILON_def Let_def)
qed

section \<open>Hidden-line engine (ProjectionGenerator.generate)\<close>

definition DIST_THRESHOLD :: real where
  "DIST_THRESHOLD = 1 / 10 ^ 10"

record ProjectionGenerator =
  sortEdges :: bool
  angleThreshold :: real
  includeIntersectionEdges :: bool
  projectionVector :: vec3

text \<open>\<open>Box3.containsPoint\<close> and \<open>Line3.distanceSq\<close>.\<close>

definition containsPoint :: "box3 \<Rightarrow> vec3 \<Rightarrow> bool" where
  "containsPoint box p =
     (if vx p < vx (bmin box) \<or> vx p > vx (bmax box)
       \<or> vy p < vy (bmin box) \<or> vy p > vy (bmax box)
       \<or> vz p < vz (bmin box) \<or> vz p > vz (bmax box) then False else True)"

definition distanceSq :: "line3 \<Rightarrow> real" where
  "distanceSq l = distanceToSquared (lstart l) (lend l)"

text \<open>The extent of the edge and of a triangle, as the closure computes them.\<close>

definition lowestLineY :: "line3 \<Rightarrow> real" where
  "lowestLineY line = min (vy (lstart line)) (vy (lend line))"

definition highestLineY :: "line3 \<Rightarrow> real" where
  "highestLineY line = max (vy (lstart line)) (vy (lend line))"

definition highestTriangleY :: "triangle \<Rightarrow> real" where
  "highestTriangleY tri = max (max (vy (tri_a tri)) (vy (tri_b tri))) (vy (tri_c tri))"

definition lowestTriangleY :: "triangle \<Rightarrow> real" where
  "lowestTriangleY tri = min (min (vy (tri_a tri)) (vy (tri_b tri))) (vy (tri_c tri))"

text \<open>
  The \<open>intersectsBounds\<close> callback of the edge query: the box is stretched down to the
  bottom of the line, then tested against the line taken as a ray.
\<close>

definition edgeIntersectsBounds :: "env \<Rightarrow> line3 \<Rightarrow> box3 \<Rightarrow> bool" where
  "edgeIntersectsBounds E line box =
     (let box' = Box3 (Vector3 (vx (bmin box)) (min (lowestLineY line - 1 / 10 ^ 6) (vy (bmin box)))
                               (vz (bmin box))) (bmax box);
          origin = lstart line;
          direction = normalize (delta line)
      in if containsPoint box' origin then True
         else (case ext_rayIntersectBox E origin direction box' of
                 Some v \<Rightarrow> distanceToSquared origin v < distanceSq line
               | None \<Rightarrow> False))"

text \<open>
  The \<open>intersectsTriangle\<close> callback of the edge query. The state is the closure's
  \<open>hiddenOverlaps\<close>; the first component of the result is the value returned to the
  traversal.
\<close>

definition edgeIntersectsTriangle :: "env \<Rightarrow> vec3 \<Rightarrow> line3 \<Rightarrow> triangle \<Rightarrow> interval list \<Rightarrow> bool \<times> interval list" where
  "edgeIntersectsTriangle E pv line tri hiddenOverlaps =
     (if highestTriangleY tri \<le> lowestLineY line then (False, hiddenOverlaps)
      else if fst (isProjectedTriangleDegenerate tri pv) then (False, hiddenOverlaps)
      else let tri' = snd (isProjectedTriangleDegenerate tri pv)
           in if isLineTriangleEdge tri' line then (False, hiddenOverlaps)
              else (case (if highestLineY line < lowestTriangleY tri' then Some line
                          else ext_trimToBeneathTriPlane E tri' line pv) of
                      None \<Rightarrow> (False, hiddenOverlaps)
                    | Some beneathLine \<Rightarrow>
                        if distance beneathLine < DIST_THRESHOLD then (False, hiddenOverlaps)
                        else let hidden' =
                                   (case getProjectedLineOverlap beneathLine tri' pv of
                                      None \<Rightarrow> hiddenOverlaps
                                    | Some overlapLine \<Rightarrow>
                                        (case ext_appendOverlapRange E line overlapLine hiddenOverlaps of
                                           (changed, appended) \<Rightarrow>
                                             if changed then ext_compressEdgeOverlaps E appended
                                             else appended))
                             in if hidden' \<noteq> [] then
                                  (case last hidden' of (d0, d1) \<Rightarrow> (d0 = 0 \<and> d1 = 1, hidden'))
                                else (False, hidden')))"

text \<open>The body of the loop over the candidate edges, and the sort that precedes it.\<close>

definition edgeStep :: "env \<Rightarrow> bvh \<Rightarrow> vec3 \<Rightarrow> line3 list \<Rightarrow> line3 \<Rightarrow> line3 list" where
  "edgeStep E b pv finalEdges line =
     (if isProjectedLineDegenerate line pv then finalEdges
      else let hiddenOverlaps = snd (shapecast (edgeIntersectsBounds E line)
                                        (edgeIntersectsTriangle E pv line) (leaves b) [])
           in finalEdges @ ext_overlapsToLines E line hiddenOverlaps)"

definition sortByAxis :: "vec3 \<Rightarrow> line3 list \<Rightarrow> line3 list" where
  "sortByAxis pv edges =
     (let absX = \<bar>vx pv\<bar>; absY = \<bar>vy pv\<bar>; absZ = \<bar>vz pv\<bar>
      in if absX \<ge> absY \<and> absX \<ge> absZ then sort_key (\<lambda>l. min (vx (lstart l)) (vx (lend l))) edges
         else if absY \<ge> absX \<and> absY \<ge> absZ then sort_key (\<lambda>l. min (vy (lstart l)) (vy (lend l))) edges
         else sort_key (\<lambda>l. min (vz (lstart l)) (vz (lend l))) edges)"

text \<open>
  The candidate edges after extraction and sorting, and \<open>generate\<close> itself. The body
  has no \<open>throw\<close> and no test of its inputs, so the only outcome the model produces is
  the completed edge set (\<open>Inr\<close>); the left summand is the error a validation would
  report.
\<close>

definition candidateEdges :: "env \<Rightarrow> ProjectionGenerator \<Rightarrow> bvh \<Rightarrow> line3 list" where
  "candidateEdges E g b =
     (let edges = ext_generateEdges E (geometry b) (projectionVector g) (angleThreshold g);
          edges' = (if includeIntersectionEdges g
                    then edges @ generateIntersectionEdges E b (projectionVector g) else edges)
      in if sortEdges g then sortByAxis (projectionVector g) edges' else edges')"

definition generate :: "env \<Rightarrow> ProjectionGenerator \<Rightarrow> bvh \<Rightarrow> string + line3 list" where
  "generate E g b = Inr (foldl (edgeStep E b (projectionVector g)) [] (candidateEdges E g b))"


subsection \<open>Early exit of the edge query\<close>

text \<open>
  The test at the end of the callback: the set is not empty and its last interval is
  exactly \<open>[0, 1]\<close>. \<open>traced\<close> makes a callback record the triangles it is called on, and
  \<open>hiddenAfter\<close> is the hidden interval set after the callback has run on a list of
  triangles in order.
\<close>

definition fullyHidden :: "interval list \<Rightarrow> bool" where
  "fullyHidden hiddenOverlaps = (hiddenOverlaps \<noteq> [] \<and> last hiddenOverlaps = (0, 1))"

definition traced :: "(triangle \<Rightarrow> 's \<Rightarrow> bool \<times> 's) \<Rightarrow> triangle \<Rightarrow> 's \<times> triangle list \<Rightarrow> bool \<times> 's \<times> triangle list" where
  "traced cb tri st = (case cb tri (fst st) of (stop, s') \<Rightarrow> (stop, s', snd st @ [tri]))"

definition hiddenAfter :: "env \<Rightarrow> vec3 \<Rightarrow> line3 \<Rightarrow> triangle list \<Rightarrow> interval list" where
  "hiddenAfter E pv line ts = foldl (\<lambda>h t. snd (edgeIntersectsTriangle E pv line t h)) [] ts"

lemma shapecast_untraced:
  "shapecast ib cb ls s =
     (fst (shapecast ib (traced cb) ls (s, v)), fst (snd (shapecast ib (traced cb) ls (s, v))))"
proof (induction ls arbitrary: s v)
  case Nil
  show ?case by simp
next
  case (Cons l ls)
  obtain boxes t where l: "l = (boxes, t)" by (cases l)
  obtain stop s' where c: "cb t s = (stop, s')" by (cases "cb t s")
  show ?case
    using Cons.IH [of s v] Cons.IH [of s' "v @ [t]"]
    by (simp add: l c traced_def)
qed

lemma shapecast_traced:
  assumes cb: "\<And>t h. \<not> F h \<Longrightarrow> fst (cb t h) = F (snd (cb t h))"
    and h0: "\<not> F h0"
  shows "\<exists>w rest. shapecast ib (traced cb) ls (h0, v0)
                     = (F (foldl (\<lambda>h t. snd (cb t h)) h0 w), foldl (\<lambda>h t. snd (cb t h)) h0 w, v0 @ w)
            \<and> reached ib ls = w @ rest
            \<and> (\<not> F (foldl (\<lambda>h t. snd (cb t h)) h0 w) \<longrightarrow> rest = [])
            \<and> (\<forall>k < length w. \<not> F (foldl (\<lambda>h t. snd (cb t h)) h0 (take k w)))"
  using h0
proof (induction ls arbitrary: h0 v0)
  case Nil
  then show ?case by (simp add: reached_def)
next
  case (Cons l ls)
  let ?step = "\<lambda>h t. snd (cb t h)"
  obtain boxes t where l: "l = (boxes, t)" by (cases l)
  show ?case
  proof (cases "list_all ib boxes")
    case False
    with Cons.IH [OF Cons.prems, of v0] show ?thesis by (simp add: l reached_def)
  next
    case True
    obtain stop h1 where c: "cb t h0 = (stop, h1)" by (cases "cb t h0")
    from cb [OF Cons.prems, of t] c have st: "stop = F h1" by simp
    show ?thesis
    proof (cases stop)
      case True
      have "shapecast ib (traced cb) (l # ls) (h0, v0) = (F (foldl ?step h0 [t]), foldl ?step h0 [t], v0 @ [t])"
        using \<open>list_all ib boxes\<close> c st True by (simp add: l traced_def)
      moreover have "reached ib (l # ls) = [t] @ reached ib ls"
        using \<open>list_all ib boxes\<close> by (simp add: l reached_def)
      moreover have "F (foldl ?step h0 [t])" using c st True by simp
      moreover have "\<forall>k < length [t]. \<not> F (foldl ?step h0 (take k [t]))"
        using Cons.prems by simp
      ultimately show ?thesis by blast
    next
      case False
      with st have nf: "\<not> F h1" by simp
      from Cons.IH [OF nf, of "v0 @ [t]"] obtain w rest where
        w: "shapecast ib (traced cb) ls (h1, v0 @ [t]) = (F (foldl ?step h1 w), foldl ?step h1 w, (v0 @ [t]) @ w)"
           "reached ib ls = w @ rest" "\<not> F (foldl ?step h1 w) \<longrightarrow> rest = []"
           "\<forall>k < length w. \<not> F (foldl ?step h1 (take k w))"
        by blast
      have f: "foldl ?step h0 (t # xs) = foldl ?step h1 xs" for xs using c by simp
      have "shapecast ib (traced cb) (l # ls) (h0, v0)
              = (F (foldl ?step h0 (t # w)), foldl ?step h0 (t # w), v0 @ (t # w))"
        using \<open>list_all ib boxes\<close> c False w(1) by (simp add: l traced_def)
      moreover have "reached ib (l # ls) = (t # w) @ rest"
        using \<open>list_all ib boxes\<close> w(2) by (simp add: l reached_def)
      moreover have "\<not> F (foldl ?step h0 (t # w)) \<longrightarrow> rest = []" using w(3) f by simp
      moreover have "\<forall>k < length (t # w). \<not> F (foldl ?step h0 (take k (t # w)))"
      proof (intro allI impI)
        fix k assume "k < length (t # w)"
        then show "\<not> F (foldl ?step h0 (take k (t # w)))"
          using Cons.prems w(4) c by (cases k) simp_all
      qed
      ultimately show ?thesis by blast
    qed
  qed
qed

lemma edgeIntersectsTriangle_signal:
  "\<not> fullyHidden hid \<Longrightarrow>
     fst (edgeIntersectsTriangle E pv line tri hid) = fullyHidden (snd (edgeIntersectsTriangle E pv line tri hid))"
  by (auto simp: edgeIntersectsTriangle_def fullyHidden_def Let_def split: option.splits prod.splits)


text \<open>
  C4. Called on a hidden interval set that is not yet fully hidden, the callback answers
  "stop" exactly when the set it leaves behind ends with the interval \<open>[0, 1]\<close>. In a
  query that starts from the empty set, the triangles the callback is called on are an
  initial part of the admissible triangles in traversal order; before each of these
  calls the set was not fully hidden; the query ends with "stop" exactly when the set
  after the last call is fully hidden, and no admissible triangle is left out unless
  it does.
\<close>

theorem edge_query_early_exit:
  "(\<not> fullyHidden hid \<longrightarrow>
      fst (edgeIntersectsTriangle E pv line tri hid)
        = fullyHidden (snd (edgeIntersectsTriangle E pv line tri hid)))
   \<and> (\<exists>visited rest.
         shapecast (edgeIntersectsBounds E line) (traced (edgeIntersectsTriangle E pv line)) ls ([], [])
           = (fullyHidden (hiddenAfter E pv line visited), hiddenAfter E pv line visited, visited)
       \<and> shapecast (edgeIntersectsBounds E line) (edgeIntersectsTriangle E pv line) ls []
           = (fullyHidden (hiddenAfter E pv line visited), hiddenAfter E pv line visited)
       \<and> reached (edgeIntersectsBounds E line) ls = visited @ rest
       \<and> (\<not> fullyHidden (hiddenAfter E pv line visited) \<longrightarrow> rest = [])
       \<and> (\<forall>k < length visited. \<not> fullyHidden (hiddenAfter E pv line (take k visited))))"
proof
  show "\<not> fullyHidden hid \<longrightarrow>
      fst (edgeIntersectsTriangle E pv line tri hid)
        = fullyHidden (snd (edgeIntersectsTriangle E pv line tri hid))"
    by (simp add: edgeIntersectsTriangle_signal)
next
  let ?cb = "edgeIntersectsTriangle E pv line" and ?ib = "edgeIntersectsBounds E line"
  have e: "\<not> fullyHidden []" by (simp add: fullyHidden_def)
  from shapecast_traced [of fullyHidden ?cb "[]" ?ib ls "[]", OF edgeIntersectsTriangle_signal e]
  obtain w rest where
    w: "shapecast ?ib (traced ?cb) ls ([], [])
          = (fullyHidden (hiddenAfter E pv line w), hiddenAfter E pv line w, w)"
       "reached ?ib ls = w @ rest"
       "\<not> fullyHidden (hiddenAfter E pv line w) \<longrightarrow> rest = []"
       "\<forall>k < length w. \<not> fullyHidden (hiddenAfter E pv line (take k w))"
    unfolding hiddenAfter_def by auto
  have "shapecast ?ib ?cb ls [] = (fullyHidden (hiddenAfter E pv line w), hiddenAfter E pv line w)"
    using shapecast_untraced [of ?ib ?cb ls "[]" "[]"] w(1) by simp
  with w show "\<exists>visited rest.
         shapecast ?ib (traced ?cb) ls ([], [])
           = (fullyHidden (hiddenAfter E pv line visited), hiddenAfter E pv line visited, visited)
       \<and> shapecast ?ib ?cb ls [] = (fullyHidden (hiddenAfter E pv line visited), hiddenAfter E pv line visited)
       \<and> reached ?ib ls = visited @ rest
       \<and> (\<not> fullyHidden (hiddenAfter E pv line visited) \<longrightarrow> rest = [])
       \<and> (\<forall>k < length visited. \<not> fullyHidden (hiddenAfter E pv line (take k visited)))"
    by blast
qed

subsection \<open>An edge beneath three triangles\<close>

text \<open>
  The edge \<open>touchLine\<close> runs from the origin to \<open>(1, 0, 0)\<close>. Seen along \<open>(0, 1, 0)\<close>,
  \<open>overlapTri\<close> covers its half \<open>[1/2, 1]\<close>, \<open>leftTri\<close> its half \<open>[0, 1/2]\<close>, and
  \<open>touchTri\<close> only touches its end.
\<close>

definition leftTri :: triangle where
  "leftTri = mkTriangle (Vector3 (1/2) 1 0) (Vector3 (-1/2) 1 (-1)) (Vector3 (-1/2) 1 1)"

definition coverLeaves :: "leaf list" where
  "coverLeaves = [([], overlapTri), ([], leftTri), ([], touchTri)]"

lemma left_spans:
  "spans (flattenLine (Vector3 0 1 0) touchLine) (flattenTriangle (Vector3 0 1 0) leftTri) = Some (0, 1, -1/2, 1/2)"
  by (simp add: overlap_defs plane_defs touchLine_def leftTri_def mkTriangle_def update_def
       coplanarNormal_def points_def Let_def vec_defs)

lemma left_area: "getArea (flattenTriangle (Vector3 0 1 0) leftTri) = 1"
  by (simp add: overlap_defs leftTri_def mkTriangle_def update_def vec_defs)

lemma left_overlap:
  "getProjectedLineOverlap touchLine leftTri (Vector3 0 1 0) = Some (Line3 (Vector3 0 0 0) (Vector3 (1/2) 0 0))"
proof -
  have "getProjectedLineOverlap touchLine leftTri (Vector3 0 1 0)
     = Some (Line3 (line_at touchLine 0) (line_at touchLine (1/2)))"
    by (simp add: getProjectedLineOverlap_def left_spans left_area flat_distance AREA_EPSILON_def Let_def)
  then show ?thesis by (simp add: line_at_def touchLine_def vec_defs)
qed

lemma right_overlap:
  "getProjectedLineOverlap touchLine overlapTri (Vector3 0 1 0) = Some (Line3 (Vector3 (1/2) 0 0) (Vector3 1 0 0))"
proof -
  have "getProjectedLineOverlap touchLine overlapTri (Vector3 0 1 0)
     = Some (Line3 (line_at touchLine (1/2)) (line_at touchLine 1))"
    by (simp add: getProjectedLineOverlap_def overlap_spans flat_area flat_distance AREA_EPSILON_def Let_def)
  then show ?thesis by (simp add: line_at_def touchLine_def vec_defs)
qed

lemma getProjectedLineOverlap_update:
  "getProjectedLineOverlap l (update t) pv = getProjectedLineOverlap l t pv"
  by (simp add: getProjectedLineOverlap_def flattenTriangle_def update_def)

lemma cover_first:
  "edgeIntersectsTriangle crossEnv (Vector3 0 1 0) touchLine overlapTri [] = (False, [(1/2, 1)])"
proof -
  have g: "\<not> highestTriangleY overlapTri \<le> lowestLineY touchLine"
      "highestLineY touchLine < lowestTriangleY overlapTri"
    by (simp_all add: highestTriangleY_def lowestLineY_def highestLineY_def lowestTriangleY_def
          overlapTri_def touchLine_def mkTriangle_def)
  have d: "isProjectedTriangleDegenerate overlapTri (Vector3 0 1 0) = (False, update overlapTri)"
    by (simp add: isProjectedTriangleDegenerate_def isYProjectedTriangleDegenerate_def overlapTri_def
          mkTriangle_def update_def coplanarNormal_def EPSILON_def vec_defs)
  have e: "\<not> isLineTriangleEdge (update overlapTri) touchLine"
    by (simp add: isLineTriangleEdge_def points_def update_def overlapTri_def touchLine_def
          mkTriangle_def EPSILON_def vec_defs)
  have l: "lowestTriangleY (update overlapTri) = lowestTriangleY overlapTri"
    by (simp add: lowestTriangleY_def update_def)
  have t: "\<not> distance touchLine < DIST_THRESHOLD"
    by (simp add: distance_def touchLine_def DIST_THRESHOLD_def vec_defs)
  have a: "ext_appendOverlapRange crossEnv touchLine (Line3 (Vector3 (1/2) 0 0) (Vector3 1 0 0)) []
             = (True, [(1/2, 1)])"
    by (simp add: crossEnv_def appendOverlapRange_def distance_def touchLine_def vec_defs real_sqrt_divide)
  have c: "ext_compressEdgeOverlaps crossEnv [(1/2, 1)] = [(1/2, 1)]"
    by (simp add: crossEnv_def compressEdgeOverlaps_def)
  show ?thesis
    by (simp add: edgeIntersectsTriangle_def g d e l t a c getProjectedLineOverlap_update right_overlap)
qed


lemma cover_second:
  "edgeIntersectsTriangle crossEnv (Vector3 0 1 0) touchLine leftTri [(1/2, 1)] = (True, [(0, 1)])"
proof -
  have g: "\<not> highestTriangleY leftTri \<le> lowestLineY touchLine"
      "highestLineY touchLine < lowestTriangleY leftTri"
    by (simp_all add: highestTriangleY_def lowestLineY_def highestLineY_def lowestTriangleY_def
          leftTri_def touchLine_def mkTriangle_def)
  have d: "isProjectedTriangleDegenerate leftTri (Vector3 0 1 0) = (False, update leftTri)"
    by (simp add: isProjectedTriangleDegenerate_def isYProjectedTriangleDegenerate_def leftTri_def
          mkTriangle_def update_def coplanarNormal_def EPSILON_def vec_defs)
  have e: "\<not> isLineTriangleEdge (update leftTri) touchLine"
    by (simp add: isLineTriangleEdge_def points_def update_def leftTri_def touchLine_def
          mkTriangle_def EPSILON_def vec_defs)
  have l: "lowestTriangleY (update leftTri) = lowestTriangleY leftTri"
    by (simp add: lowestTriangleY_def update_def)
  have t: "\<not> distance touchLine < DIST_THRESHOLD"
    by (simp add: distance_def touchLine_def DIST_THRESHOLD_def vec_defs)
  have a: "ext_appendOverlapRange crossEnv touchLine (Line3 (Vector3 0 0 0) (Vector3 (1/2) 0 0)) [(1/2, 1)]
             = (True, [(1/2, 1), (0, 1/2)])"
    by (simp add: crossEnv_def appendOverlapRange_def distance_def touchLine_def vec_defs real_sqrt_divide)
  have c: "ext_compressEdgeOverlaps crossEnv [(1/2, 1), (0, 1/2)] = [(0, 1)]"
    by (simp add: crossEnv_def compressEdgeOverlaps_def)
  show ?thesis
    by (simp add: edgeIntersectsTriangle_def g d e l t a c getProjectedLineOverlap_update left_overlap)
qed

theorem edge_query_early_exit_witness:
  "\<not> fullyHidden [(1/2, 1)]
   \<and> fst (edgeIntersectsTriangle crossEnv (Vector3 0 1 0) touchLine leftTri [(1/2, 1)])
   \<and> fullyHidden (snd (edgeIntersectsTriangle crossEnv (Vector3 0 1 0) touchLine leftTri [(1/2, 1)]))
   \<and> shapecast (edgeIntersectsBounds crossEnv touchLine)
        (traced (edgeIntersectsTriangle crossEnv (Vector3 0 1 0) touchLine)) coverLeaves ([], [])
       = (True, [(0, 1)], [overlapTri, leftTri])
   \<and> reached (edgeIntersectsBounds crossEnv touchLine) coverLeaves = [overlapTri, leftTri] @ [touchTri]"
proof -
  have n: "\<not> fullyHidden [(1/2, 1)]" by (simp add: fullyHidden_def)
  have run: "shapecast (edgeIntersectsBounds crossEnv touchLine)
        (traced (edgeIntersectsTriangle crossEnv (Vector3 0 1 0) touchLine)) coverLeaves ([], [])
       = (True, [(0, 1)], [overlapTri, leftTri])"
    by (simp add: coverLeaves_def traced_def cover_first cover_second)
  have r: "reached (edgeIntersectsBounds crossEnv touchLine) coverLeaves = [overlapTri, leftTri] @ [touchTri]"
    by (simp add: reached_def coverLeaves_def)
  from edge_query_early_exit [of "[(1/2, 1)]" crossEnv "Vector3 0 1 0" touchLine leftTri coverLeaves] n
  have "fst (edgeIntersectsTriangle crossEnv (Vector3 0 1 0) touchLine leftTri [(1/2, 1)])
        = fullyHidden (snd (edgeIntersectsTriangle crossEnv (Vector3 0 1 0) touchLine leftTri [(1/2, 1)]))"
    by blast
  with n run r show ?thesis by (simp add: cover_second)
qed

subsection \<open>The extent comparison\<close>

text \<open>
  Two configurations seen along the X axis. \<open>nearTri\<close> lies at \<open>x = 5\<close>, in front of the
  edge \<open>edgeBehind\<close> at \<open>x = 0\<close>, and its top side runs along the edge in the projection.
  \<open>farTri\<close> lies at \<open>x = 0\<close>, behind the edge \<open>edgeInFront\<close> at \<open>x = 5\<close>.
\<close>

definition nearTri :: triangle where
  "nearTri = mkTriangle (Vector3 5 1 0) (Vector3 5 1 1) (Vector3 5 0 (1/2))"

definition edgeBehind :: line3 where
  "edgeBehind = Line3 (Vector3 0 1 0) (Vector3 0 1 1)"

definition farTri :: triangle where
  "farTri = mkTriangle (Vector3 0 0 (-1)) (Vector3 0 0 2) (Vector3 0 3 (1/2))"

definition edgeInFront :: line3 where
  "edgeInFront = Line3 (Vector3 5 1 0) (Vector3 5 1 1)"

text \<open>
  C1 (the code at the failing inputs). With the projection vector \<open>(1, 0, 0)\<close> the
  callback compares Y coordinates. It skips \<open>nearTri\<close> for \<open>edgeBehind\<close>, whatever the
  helper routines are, because the triangle's highest Y equals the edge's lowest Y,
  although every vertex of the triangle has a larger X than the edge. And its extent
  test does not skip \<open>farTri\<close> for \<open>edgeInFront\<close>, although every vertex of the triangle
  has a smaller X than the edge.
\<close>

theorem extent_comparison_on_y:
  "(\<forall>E hid. edgeIntersectsTriangle E (Vector3 1 0 0) edgeBehind nearTri hid = (False, hid))
   \<and> vx (lstart edgeBehind) < vx (tri_a nearTri) \<and> vx (lend edgeBehind) < vx (tri_a nearTri)
   \<and> vx (tri_b nearTri) = vx (tri_a nearTri) \<and> vx (tri_c nearTri) = vx (tri_a nearTri)
   \<and> \<not> highestTriangleY farTri \<le> lowestLineY edgeInFront
   \<and> vx (tri_a farTri) < vx (lstart edgeInFront) \<and> vx (tri_a farTri) < vx (lend edgeInFront)
   \<and> vx (tri_b farTri) = vx (tri_a farTri) \<and> vx (tri_c farTri) = vx (tri_a farTri)"
  by (simp add: edgeIntersectsTriangle_def highestTriangleY_def lowestLineY_def
        nearTri_def edgeBehind_def farTri_def edgeInFront_def mkTriangle_def)


subsection \<open>A projection vector of length zero\<close>

lemma zero_vector_callback:
  "edgeIntersectsTriangle E (Vector3 0 0 0) line tri hid = (False, hid)"
  by (simp add: edgeIntersectsTriangle_def isProjectedTriangleDegenerate_def
        isYProjectedTriangleDegenerate_def dot_def EPSILON_def Let_def)

lemma shapecast_never_changes:
  assumes "\<And>t h. cb t h = (False, h)"
  shows "shapecast ib cb ls s = (False, s)"
  by (induction ls) (auto simp: assms)

lemma zero_vector_step:
  "edgeStep E b (Vector3 0 0 0) finalEdges line = finalEdges @ ext_overlapsToLines E line []"
  by (simp add: edgeStep_def isProjectedLineDegenerate_def isYProjectedLineDegenerate_def
        dot_def EPSILON_def shapecast_never_changes [OF zero_vector_callback])

lemma zero_vector_loop:
  "foldl (edgeStep E b (Vector3 0 0 0)) acc es = acc @ concat (map (\<lambda>l. ext_overlapsToLines E l []) es)"
  by (induction es arbitrary: acc) (simp_all add: zero_vector_step)

definition zeroGenerator :: ProjectionGenerator where
  "zeroGenerator = \<lparr> sortEdges = True, angleThreshold = 50, includeIntersectionEdges = True,
                      projectionVector = Vector3 0 0 0 \<rparr>"

definition crossEdgeX :: line3 where
  "crossEdgeX = Line3 (Vector3 OFFSET_EPSILON 0 (-1/2)) (Vector3 OFFSET_EPSILON 0 (1/2))"

lemma zero_candidates:
  "candidateEdges crossEnv zeroGenerator crossBvh = [crossEdgeX, crossEdgeX]"
  by (simp add: candidateEdges_def zeroGenerator_def sortByAxis_def crossEdgeX_def
        generateIntersectionEdges_def intersectionStep_def intersectionCallback_def
        triEquals_def mkTriangle_def update_def coplanarNormal_def isLineTriangleEdge_def points_def
        offsetVector_def EPSILON_def Let_def sqrt_16 vec_defs cross_defs float_simps)

lemma zero_visible:
  "ext_overlapsToLines crossEnv crossEdgeX [] = [crossEdgeX]"
  by (simp add: crossEnv_def overlapsToLines_def line_at_def crossEdgeX_def vec_defs)

text \<open>
  C5 (as amended). \<open>generate\<close> tests none of its inputs and has no error outcome of its
  own. With a projection vector of length zero it runs to completion: the candidate
  edges are sorted on X, no edge is classified degenerate, every triangle is skipped,
  and each candidate edge is handed to \<open>overlapsToLines\<close> with an empty hidden interval
  set.
\<close>

theorem generate_zero_vector:
  "generate E g b \<noteq> Inl err
   \<and> (projectionVector g = Vector3 0 0 0 \<longrightarrow>
        generate E g b = Inr (concat (map (\<lambda>l. ext_overlapsToLines E l []) (candidateEdges E g b)))
      \<and> sortByAxis (projectionVector g) es = sort_key (\<lambda>l. min (vx (lstart l)) (vx (lend l))) es
      \<and> \<not> isProjectedLineDegenerate line (projectionVector g)
      \<and> edgeIntersectsTriangle E (projectionVector g) line tri hid = (False, hid))"
  by (simp add: generate_def zero_vector_loop zero_vector_callback sortByAxis_def
        isProjectedLineDegenerate_def isYProjectedLineDegenerate_def dot_def EPSILON_def)

theorem generate_zero_vector_witness:
  "projectionVector zeroGenerator = Vector3 0 0 0
   \<and> candidateEdges crossEnv zeroGenerator crossBvh = [crossEdgeX, crossEdgeX]
   \<and> generate crossEnv zeroGenerator crossBvh
       = Inr (ext_overlapsToLines crossEnv crossEdgeX [] @ ext_overlapsToLines crossEnv crossEdgeX [])"
  using generate_zero_vector [of crossEnv zeroGenerator crossBvh]
  by (simp add: zero_candidates) (simp add: zeroGenerator_def)

text \<open>
  C5 (as stated) fails on the two crossing triangles with the projection vector
  \<open>(0, 0, 0)\<close>: no error is reported, the detector and the edge loop both run, and the
  result is an edge set of two visible segments.
\<close>

theorem generate_zero_vector_completes:
  "lengthSq (projectionVector zeroGenerator) = 0
   \<and> generate crossEnv zeroGenerator crossBvh = Inr [crossEdgeX, crossEdgeX]"
proof -
  have p: "projectionVector zeroGenerator = Vector3 0 0 0" by (simp add: zeroGenerator_def)
  have "generate crossEnv zeroGenerator crossBvh
          = Inr (concat (map (\<lambda>l. ext_overlapsToLines crossEnv l []) (candidateEdges crossEnv zeroGenerator crossBvh)))"
    by (simp add: generate_def p zero_vector_loop)
  then show ?thesis by (simp add: zero_candidates zero_visible p lengthSq_def)
qed

section \<open>Topology filter (postProcessing)\<close>

definition MIN_LINE_LENGTH :: real where
  "MIN_LINE_LENGTH = 3 / 100"

definition MIN_CONNECTED_LINES :: nat where
  "MIN_CONNECTED_LINES = 2"

definition MIN_COMPONENT_SIZE :: nat where
  "MIN_COMPONENT_SIZE = 3"

definition MAX_DENSITY_THRESHOLD :: nat where
  "MAX_DENSITY_THRESHOLD = 12"

definition DENSITY_CELL_SIZE :: real where
  "DENSITY_CELL_SIZE = 5 / 100"

text \<open>
  A \<open>LineSegment\<close> object. The segments are shared, mutable objects: they live in a
  store, a list indexed by object identity, and \<open>connections\<close> lists the identities in
  the insertion order of the JavaScript \<open>Set\<close> (so without repetition). A fresh segment
  has \<open>componentId = -1\<close>.
\<close>

record LineSegment =
  seg_start :: vec3
  seg_end :: vec3
  seg_length :: real
  direction :: vec3
  isValid :: bool
  connections :: "nat list"
  componentId :: int
  hasC1Continuity :: bool

definition newLineSegment :: "vec3 \<Rightarrow> vec3 \<Rightarrow> LineSegment" where
  "newLineSegment p q = \<lparr> seg_start = p, seg_end = q,
       seg_length = sqrt (distanceToSquared p q),
       direction = normalize (subVectors q p),
       isValid = True, connections = [], componentId = -1, hasC1Continuity = False \<rparr>"

definition isAxisAligned :: "LineSegment \<Rightarrow> bool" where
  "isAxisAligned line =
     (\<bar>vx (direction line)\<bar> > 1 - 1 / 10 \<or> \<bar>vy (direction line)\<bar> > 1 - 1 / 10
      \<or> \<bar>vz (direction line)\<bar> > 1 - 1 / 10)"

type_synonym store = "LineSegment list"

text \<open>The \<open>components\<close> map of \<open>findConnectedComponents\<close>: component number to members.\<close>

type_synonym components = "nat \<rightharpoonup> nat list"

definition unlabelled :: "LineSegment \<Rightarrow> bool" where
  "unlabelled line = (componentId line = -1)"

lemma unlabelled_update:
  "i < length st \<Longrightarrow> unlabelled (st ! i) \<Longrightarrow> \<not> unlabelled x \<Longrightarrow>
     Suc (length (filter unlabelled (st[i := x]))) = length (filter unlabelled st)"
proof (induction st arbitrary: i)
  case Nil
  then show ?case by simp
next
  case (Cons s st)
  then show ?case by (cases i) auto
qed

text \<open>
  The recursive \<open>dfs\<close> closure, with its call stack made explicit: the list holds the
  segments on which \<open>dfs\<close> is still to be called, in call order. A call on a segment
  that already has a component returns at once; otherwise the segment is labelled,
  added to the component, and its connections are the next calls. The test the loop
  makes before each nested call is the test the call itself makes first.
\<close>

function dfs :: "nat \<Rightarrow> nat list \<Rightarrow> store \<times> components \<Rightarrow> store \<times> components" where
  "dfs currentComponent [] sc = sc"
| "dfs currentComponent (i # pending) (st, comps) =
     (if i < length st \<and> unlabelled (st ! i) then
        dfs currentComponent (connections (st ! i) @ pending)
          (st[i := (st ! i)\<lparr> componentId := int currentComponent \<rparr>],
           comps(currentComponent \<mapsto>
                   (case comps currentComponent of None \<Rightarrow> [] | Some m \<Rightarrow> m) @ [i]))
      else dfs currentComponent pending (st, comps))"
  by pat_completeness auto
termination
proof (relation "measures [\<lambda>(c, pending, st, comps). length (filter unlabelled st),
                           \<lambda>(c, pending, st, comps). length pending]", goal_cases)
  case 1
  show ?case by simp
next
  case (2 currentComponent i pending st comps)
  then have "Suc (length (filter unlabelled (st[i := (st ! i)\<lparr> componentId := int currentComponent \<rparr>])))
               = length (filter unlabelled st)"
    by (intro unlabelled_update) (simp_all add: unlabelled_def)
  then show ?case by simp
next
  case 3
  then show ?case by simp
qed

lemma dfs_Nil: "dfs c [] sc = sc"
  by (simp only: dfs.simps)

lemma dfs_visit:
  "i < length st \<Longrightarrow> unlabelled (st ! i) \<Longrightarrow>
     dfs c (i # pending) (st, comps) =
       dfs c (connections (st ! i) @ pending)
         (st[i := (st ! i)\<lparr> componentId := int c \<rparr>],
          comps(c \<mapsto> (case comps c of None \<Rightarrow> [] | Some m \<Rightarrow> m) @ [i]))"
  by (subst dfs.simps) (simp only: simp_thms if_True)

lemma dfs_skip:
  "\<not> (i < length st \<and> unlabelled (st ! i)) \<Longrightarrow>
     dfs c (i # pending) (st, comps) = dfs c pending (st, comps)"
  by (subst dfs.simps) (simp only: if_False)

declare dfs.simps [simp del]

text \<open>The loop over \<open>lines\<close> that starts a component at every segment not yet labelled.\<close>

fun componentsLoop :: "nat list \<Rightarrow> nat \<Rightarrow> store \<times> components \<Rightarrow> store \<times> components" where
  "componentsLoop [] currentComponent sc = sc"
| "componentsLoop (i # rest) currentComponent (st, comps) =
     (if i < length st \<and> unlabelled (st ! i)
      then componentsLoop rest (currentComponent + 1) (dfs currentComponent [i] (st, comps))
      else componentsLoop rest currentComponent (st, comps))"

lemma componentsLoop_start:
  "i < length st \<Longrightarrow> unlabelled (st ! i) \<Longrightarrow>
     componentsLoop (i # rest) c (st, comps) = componentsLoop rest (c + 1) (dfs c [i] (st, comps))"
  by simp

lemma componentsLoop_skip:
  "\<not> (i < length st \<and> unlabelled (st ! i)) \<Longrightarrow>
     componentsLoop (i # rest) c (st, comps) = componentsLoop rest c (st, comps)"
  by (cases "i < length st"; cases "unlabelled (st ! i)"; simp)

declare componentsLoop.simps(2) [simp del]

definition findConnectedComponents :: "store \<Rightarrow> nat list \<Rightarrow> store \<times> components" where
  "findConnectedComponents st lines = componentsLoop lines 0 (st, Map.empty)"

text \<open>The three passes of \<open>filterLines\<close>; \<open>lines\<close> is the array of segment identities.\<close>

definition firstPass :: "store \<Rightarrow> nat list \<Rightarrow> nat list" where
  "firstPass st lines =
     filter (\<lambda>i. let line = st ! i
                 in if isAxisAligned line then seg_length line \<ge> MIN_LINE_LENGTH * (1 / 2)
                    else let hasGoodConnections = (length (connections line) \<ge> MIN_CONNECTED_LINES);
                             isLongEnough = (seg_length line \<ge> MIN_LINE_LENGTH)
                         in (isLongEnough \<and> hasGoodConnections) \<or> hasC1Continuity line) lines"

definition validComponent :: "store \<Rightarrow> nat list \<Rightarrow> bool" where
  "validComponent st componentLines =
     (let hasC1Lines = list_ex (\<lambda>i. hasC1Continuity (st ! i)) componentLines;
          hasAxisAlignedLines = list_ex (\<lambda>i. isAxisAligned (st ! i)) componentLines
      in length componentLines \<ge> MIN_COMPONENT_SIZE \<or> hasC1Lines \<or> hasAxisAlignedLines)"

definition inValidComponents :: "store \<Rightarrow> components \<Rightarrow> int \<Rightarrow> bool" where
  "inValidComponents st comps cid =
     (cid \<ge> 0 \<and> (case comps (nat cid) of None \<Rightarrow> False | Some m \<Rightarrow> validComponent st m))"

definition secondPass :: "store \<Rightarrow> nat list \<Rightarrow> store \<times> nat list" where
  "secondPass st lines =
     (case findConnectedComponents st lines of
        (st', comps) \<Rightarrow> (st', filter (\<lambda>i. inValidComponents st' comps (componentId (st' ! i))) lines))"

definition densityKey :: "LineSegment \<Rightarrow> int \<times> int \<times> int" where
  "densityKey line =
     (let midpoint = multiplyScalar (add (seg_start line) (seg_end line)) (1 / 2)
      in (\<lfloor>vx midpoint / DENSITY_CELL_SIZE\<rfloor>, \<lfloor>vy midpoint / DENSITY_CELL_SIZE\<rfloor>,
          \<lfloor>vz midpoint / DENSITY_CELL_SIZE\<rfloor>))"

definition thirdPass :: "store \<Rightarrow> nat list \<Rightarrow> nat list" where
  "thirdPass st lines =
     filter (\<lambda>i. let line = st ! i;
                     density = length (filter (\<lambda>j. densityKey (st ! j) = densityKey line) lines)
                 in isAxisAligned line \<or> hasC1Continuity line \<or> density < MAX_DENSITY_THRESHOLD
                    \<or> seg_length line > MIN_LINE_LENGTH * 2) lines"

definition filterLines :: "store \<Rightarrow> nat list \<Rightarrow> store \<times> nat list" where
  "filterLines st lines =
     (case secondPass st (firstPass st lines) of
        (st', kept) \<Rightarrow> (st', thirdPass st' kept))"


subsection \<open>What the labelling establishes\<close>

text \<open>
  Labels and the component map agree: a segment labelled \<open>c\<close> is a member of component
  \<open>c\<close>, and every member of component \<open>c\<close> is a segment of the store labelled \<open>c\<close>.
\<close>

definition consistent :: "store \<times> components \<Rightarrow> bool" where
  "consistent sc =
     ((\<forall>i < length (fst sc). \<forall>c. componentId (fst sc ! i) = int c \<longrightarrow>
          (\<exists>m. snd sc c = Some m \<and> i \<in> set m))
    \<and> (\<forall>c m. snd sc c = Some m \<longrightarrow>
          distinct m \<and> (\<forall>j \<in> set m. j < length (fst sc) \<and> componentId (fst sc ! j) = int c)))"

definition erase :: "store \<Rightarrow> store" where
  "erase st = map (\<lambda>line. line\<lparr> componentId := 0 \<rparr>) st"

lemma consistent_label:
  assumes inv: "consistent (st, comps)" and i: "i < length st" and u: "unlabelled (st ! i)"
  shows "consistent (st[i := (st ! i)\<lparr> componentId := int c \<rparr>],
                     comps(c \<mapsto> (case comps c of None \<Rightarrow> [] | Some m \<Rightarrow> m) @ [i]))"
proof -
  let ?st = "st[i := (st ! i)\<lparr> componentId := int c \<rparr>]"
  let ?old = "case comps c of None \<Rightarrow> [] | Some m \<Rightarrow> m"
  let ?comps = "comps(c \<mapsto> ?old @ [i])"
  have ui: "componentId (st ! i) = -1" using u by (simp add: unlabelled_def)
  have a: "\<exists>m. ?comps c' = Some m \<and> k \<in> set m"
    if k: "k < length ?st" and l: "componentId (?st ! k) = int c'" for k c'
  proof (cases "k = i")
    case True
    with i l have "c' = c" by simp
    with True show ?thesis by simp
  next
    case False
    with k l have "k < length st" "componentId (st ! k) = int c'" by simp_all
    with inv obtain m where m: "comps c' = Some m" "k \<in> set m"
      unfolding consistent_def by fastforce
    then show ?thesis by (cases "c' = c") simp_all
  qed
  have b: "j < length ?st \<and> componentId (?st ! j) = int c'"
    if m: "?comps c' = Some m" and j: "j \<in> set m" for c' m j
  proof (cases "j = i \<and> c' = c")
    case True
    with i show ?thesis by simp
  next
    case False
    have "\<exists>m0. comps c' = Some m0 \<and> j \<in> set m0"
    proof (cases "c' = c")
      case True
      with m have "m = ?old @ [i]" by simp
      with j False True have "j \<in> set ?old" by auto
      with True show ?thesis by (cases "comps c") simp_all
    next
      case False
      with m j show ?thesis by simp
    qed
    then obtain m0 where "comps c' = Some m0" "j \<in> set m0" by blast
    with inv have jj: "j < length st" "componentId (st ! j) = int c'"
      unfolding consistent_def fst_conv snd_conv by blast+
    with ui have "j \<noteq> i" by auto
    with jj show ?thesis by simp
  qed
  have d: "distinct m" if m: "?comps c' = Some m" for c' m
  proof (cases "c' = c")
    case True
    have "distinct ?old \<and> i \<notin> set ?old"
    proof (cases "comps c")
      case None
      then show ?thesis by simp
    next
      case (Some m0)
      with inv have "distinct m0" "\<forall>j \<in> set m0. componentId (st ! j) = int c"
        unfolding consistent_def by fastforce+
      with ui Some show ?thesis by auto
    qed
    with m True show ?thesis by auto
  next
    case False
    with m inv show ?thesis unfolding consistent_def by fastforce
  qed
  show ?thesis
    unfolding consistent_def fst_conv snd_conv using a b d by blast
qed

lemma dfs_consistent:
  "consistent sc \<Longrightarrow> consistent (dfs c pending sc)"
proof (induction c pending sc rule: dfs.induct)
  case (1 c sc)
  then show ?case by (simp add: dfs_Nil)
next
  case (2 c i pending st comps)
  show ?case
  proof (cases "i < length st \<and> unlabelled (st ! i)")
    case True
    then have "consistent (st[i := (st ! i)\<lparr> componentId := int c \<rparr>],
                     comps(c \<mapsto> (case comps c of None \<Rightarrow> [] | Some m \<Rightarrow> m) @ [i]))"
      using "2.prems" by (intro consistent_label) simp_all
    with "2.IH"(1) True show ?thesis by (simp add: dfs_visit)
  next
    case False
    from "2.IH"(2) [OF False "2.prems"] show ?thesis by (simp only: dfs_skip [OF False] simp_thms)
  qed
qed

lemma erase_label:
  "erase (st[i := (st ! i)\<lparr> componentId := v \<rparr>]) = erase st"
proof (cases "i < length st")
  case True
  have "erase (st[i := (st ! i)\<lparr> componentId := v \<rparr>]) = (erase st)[i := erase st ! i]"
    using True by (simp add: erase_def map_update)
  then show ?thesis by simp
next
  case False
  then have "st[i := (st ! i)\<lparr> componentId := v \<rparr>] = st" by (simp add: list_update_beyond)
  then show ?thesis by simp
qed


lemma dfs_erase:
  "erase (fst (dfs c pending sc)) = erase (fst sc)"
proof (induction c pending sc rule: dfs.induct)
  case (1 c sc)
  show ?case by (simp add: dfs_Nil)
next
  case (2 c i pending st comps)
  show ?case
  proof (cases "i < length st \<and> unlabelled (st ! i)")
    case True
    with "2.IH"(1) [OF True] show ?thesis by (simp add: dfs_visit erase_label)
  next
    case False
    from "2.IH"(2) [OF False] show ?thesis by (simp only: dfs_skip [OF False] simp_thms)
  qed
qed

lemma length_erase: "erase a = erase b \<Longrightarrow> length a = length b"
proof -
  assume "erase a = erase b"
  then have "length (erase a) = length (erase b)" by simp
  then show ?thesis by (simp add: erase_def)
qed

lemma dfs_length: "length (fst (dfs c pending sc)) = length (fst sc)"
  using dfs_erase [of c pending sc] by (rule length_erase)

lemma dfs_keeps_label:
  "j < length (fst sc) \<Longrightarrow> \<not> unlabelled (fst sc ! j) \<Longrightarrow> fst (dfs c pending sc) ! j = fst sc ! j"
proof (induction c pending sc rule: dfs.induct)
  case (1 c sc)
  show ?case by (simp add: dfs_Nil)
next
  case (2 c i pending st comps)
  show ?case
  proof (cases "i < length st \<and> unlabelled (st ! i)")
    case True
    with "2.prems" have ne: "j \<noteq> i" by auto
    with "2.prems" "2.IH"(1) [OF True] True show ?thesis by (simp add: dfs_visit)
  next
    case False
    from "2.IH"(2) [OF False "2.prems"] show ?thesis by (simp only: dfs_skip [OF False] simp_thms)
  qed
qed

lemma dfs_labels_head:
  assumes "i < length st"
  shows "\<not> unlabelled (fst (dfs c (i # pending) (st, comps)) ! i)"
proof (cases "unlabelled (st ! i)")
  case True
  let ?st = "st[i := (st ! i)\<lparr> componentId := int c \<rparr>]"
  let ?comps = "comps(c \<mapsto> (case comps c of None \<Rightarrow> [] | Some m \<Rightarrow> m) @ [i])"
  have l: "\<not> unlabelled (?st ! i)" using assms by (simp add: unlabelled_def)
  have "fst (dfs c (connections (st ! i) @ pending) (?st, ?comps)) ! i = fst (?st, ?comps) ! i"
    by (rule dfs_keeps_label) (use assms l in simp_all)
  with True assms l show ?thesis by (simp add: dfs_visit)
next
  case False
  have "fst (dfs c (i # pending) (st, comps)) ! i = fst (st, comps) ! i"
    by (rule dfs_keeps_label) (use assms False in simp_all)
  with False show ?thesis by simp
qed


lemma erase_attr:
  assumes "erase a = erase b" and "j < length a"
  shows "hasC1Continuity (a ! j) = hasC1Continuity (b ! j)"
    and "isAxisAligned (a ! j) = isAxisAligned (b ! j)"
proof -
  have len: "length a = length b" using assms(1) by (rule length_erase)
  have "erase a ! j = erase b ! j" using assms(1) by simp
  with assms(2) len have "(a ! j)\<lparr> componentId := 0 \<rparr> = (b ! j)\<lparr> componentId := 0 \<rparr>"
    by (simp add: erase_def)
  then have "hasC1Continuity (a ! j) = hasC1Continuity (b ! j) \<and> direction (a ! j) = direction (b ! j)"
    by (cases "a ! j", cases "b ! j") simp
  then show "hasC1Continuity (a ! j) = hasC1Continuity (b ! j)"
    and "isAxisAligned (a ! j) = isAxisAligned (b ! j)"
    by (simp_all add: isAxisAligned_def)
qed

lemma componentsLoop_consistent:
  "consistent sc \<Longrightarrow> consistent (componentsLoop lines c sc)"
proof (induction lines c sc rule: componentsLoop.induct)
  case (1 c sc)
  then show ?case by simp
next
  case (2 i rest c st comps)
  show ?case
  proof (cases "i < length st \<and> unlabelled (st ! i)")
    case True
    have "consistent (dfs c [i] (st, comps))" using "2.prems" by (rule dfs_consistent)
    with "2.IH"(1) [OF True] True show ?thesis by (simp add: componentsLoop_start)
  next
    case False
    from "2.IH"(2) [OF False "2.prems"] show ?thesis by (simp only: componentsLoop_skip [OF False] simp_thms)
  qed
qed

lemma componentsLoop_erase:
  "erase (fst (componentsLoop lines c sc)) = erase (fst sc)"
proof (induction lines c sc rule: componentsLoop.induct)
  case (1 c sc)
  show ?case by simp
next
  case (2 i rest c st comps)
  show ?case
  proof (cases "i < length st \<and> unlabelled (st ! i)")
    case True
    with "2.IH"(1) [OF True] dfs_erase [of c "[i]" "(st, comps)"] show ?thesis
      by (simp add: componentsLoop_start)
  next
    case False
    from "2.IH"(2) [OF False] show ?thesis by (simp only: componentsLoop_skip [OF False] simp_thms)
  qed
qed

lemma componentsLoop_keeps_label:
  "j < length (fst sc) \<Longrightarrow> \<not> unlabelled (fst sc ! j) \<Longrightarrow>
     \<not> unlabelled (fst (componentsLoop lines c sc) ! j)"
proof (induction lines c sc rule: componentsLoop.induct)
  case (1 c sc)
  then show ?case by simp
next
  case (2 i rest c st comps)
  show ?case
  proof (cases "i < length st \<and> unlabelled (st ! i)")
    case True
    let ?sc = "dfs c [i] (st, comps)"
    have a: "j < length (fst ?sc)" using "2.prems" by (simp add: dfs_length)
    have "fst ?sc ! j = fst (st, comps) ! j"
      by (rule dfs_keeps_label) (use "2.prems" in simp_all)
    with "2.prems" have b: "\<not> unlabelled (fst ?sc ! j)" by simp
    from "2.IH"(1) [OF True a b] True show ?thesis by (simp add: componentsLoop_start)
  next
    case False
    from "2.IH"(2) [OF False "2.prems"] show ?thesis by (simp only: componentsLoop_skip [OF False] simp_thms)
  qed
qed

lemma componentsLoop_labels:
  "i \<in> set lines \<Longrightarrow> i < length (fst sc) \<Longrightarrow> \<not> unlabelled (fst (componentsLoop lines c sc) ! i)"
proof (induction lines c sc rule: componentsLoop.induct)
  case (1 c sc)
  then show ?case by simp
next
  case (2 k rest c st comps)
  from "2.prems" have il: "i < length st" by simp
  show ?case
  proof (cases "k < length st \<and> unlabelled (st ! k)")
    case True
    let ?sc = "dfs c [k] (st, comps)"
    have a: "i < length (fst ?sc)" using il by (simp add: dfs_length)
    have "\<not> unlabelled (fst (componentsLoop rest (c + 1) ?sc) ! i)"
    proof (cases "i = k")
      case True
      have "\<not> unlabelled (fst ?sc ! k)" using il True by (intro dfs_labels_head) simp
      with True a show ?thesis by (intro componentsLoop_keeps_label) simp_all
    next
      case False
      with "2.prems" have "i \<in> set rest" by simp
      from "2.IH"(1) [OF True this a] show ?thesis .
    qed
    with True show ?thesis by (simp add: componentsLoop_start)
  next
    case False
    have "\<not> unlabelled (fst (componentsLoop rest c (st, comps)) ! i)"
    proof (cases "i = k")
      case True
      with False il have "\<not> unlabelled (st ! i)" by simp
      with il show ?thesis by (intro componentsLoop_keeps_label) simp_all
    next
      case ne: False
      with "2.prems" have "i \<in> set rest" by simp
      from "2.IH"(2) [OF False this] il show ?thesis by simp
    qed
    then show ?thesis by (simp only: componentsLoop_skip [OF False] simp_thms)
  qed
qed


subsection \<open>Components are connected\<close>

text \<open>
  The adjacency relation of the store, and what it means for a component to hang
  together: all its members can be reached from one of them along connections.
\<close>

definition linked :: "store \<Rightarrow> (nat \<times> nat) set" where
  "linked st = {(a, b). a < length st \<and> b \<in> set (connections (st ! a))}"

definition connectedComponent :: "store \<Rightarrow> nat list \<Rightarrow> bool" where
  "connectedComponent st m = (\<exists>r \<in> set m. \<forall>j \<in> set m. (r, j) \<in> (linked st)\<^sup>*)"

lemma linked_erase:
  assumes "erase a = erase b"
  shows "linked a = linked b"
proof -
  have len: "length a = length b" using assms by (rule length_erase)
  have "connections (a ! j) = connections (b ! j)" if "j < length a" for j
  proof -
    have "erase a ! j = erase b ! j" using assms by simp
    with that len have "(a ! j)\<lparr> componentId := 0 \<rparr> = (b ! j)\<lparr> componentId := 0 \<rparr>"
      by (simp add: erase_def)
    then show ?thesis by (cases "a ! j", cases "b ! j") simp
  qed
  with len show ?thesis by (auto simp: linked_def)
qed

lemma linked_label: "linked (st[i := (st ! i)\<lparr> componentId := v \<rparr>]) = linked st"
  by (rule linked_erase) (rule erase_label)

lemma dfs_other:
  "c' \<noteq> c \<Longrightarrow> snd (dfs c pending sc) c' = snd sc c'"
proof (induction c pending sc rule: dfs.induct)
  case (1 c sc)
  show ?case by (simp add: dfs_Nil)
next
  case (2 c i pending st comps)
  show ?case
  proof (cases "i < length st \<and> unlabelled (st ! i)")
    case True
    with "2.IH"(1) [OF True "2.prems"] "2.prems" show ?thesis by (simp add: dfs_visit)
  next
    case False
    from "2.IH"(2) [OF False "2.prems"] show ?thesis by (simp only: dfs_skip [OF False] simp_thms)
  qed
qed

lemma dfs_grows:
  "snd sc c = Some m0 \<Longrightarrow> \<exists>m. snd (dfs c pending sc) c = Some m \<and> set m0 \<subseteq> set m"
proof (induction c pending sc arbitrary: m0 rule: dfs.induct)
  case (1 c sc)
  then show ?case by (simp add: dfs_Nil)
next
  case (2 c i pending st comps)
  show ?case
  proof (cases "i < length st \<and> unlabelled (st ! i)")
    case True
    let ?comps = "comps(c \<mapsto> (case comps c of None \<Rightarrow> [] | Some m \<Rightarrow> m) @ [i])"
    have "snd (st[i := (st ! i)\<lparr> componentId := int c \<rparr>], ?comps) c = Some (m0 @ [i])"
      using "2.prems" by simp
    from "2.IH"(1) [OF True this] obtain m where
      "snd (dfs c (connections (st ! i) @ pending) (st[i := (st ! i)\<lparr> componentId := int c \<rparr>], ?comps)) c = Some m"
      "set (m0 @ [i]) \<subseteq> set m" by blast
    with True show ?thesis by (auto simp: dfs_visit)
  next
    case False
    from "2.IH"(2) [OF False "2.prems"] show ?thesis by (simp only: dfs_skip [OF False] simp_thms)
  qed
qed

lemma dfs_rooted:
  "\<forall>j \<in> set pending. (r, j) \<in> (linked (fst sc))\<^sup>* \<Longrightarrow>
   \<forall>m. snd sc c = Some m \<longrightarrow> (\<forall>j \<in> set m. (r, j) \<in> (linked (fst sc))\<^sup>*) \<Longrightarrow>
   \<forall>m. snd (dfs c pending sc) c = Some m \<longrightarrow> (\<forall>j \<in> set m. (r, j) \<in> (linked (fst sc))\<^sup>*)"
proof (induction c pending sc rule: dfs.induct)
  case (1 c sc)
  then show ?case by (simp add: dfs_Nil)
next
  case (2 c i pending st comps)
  show ?case
  proof (cases "i < length st \<and> unlabelled (st ! i)")
    case True
    let ?st = "st[i := (st ! i)\<lparr> componentId := int c \<rparr>]"
    let ?comps = "comps(c \<mapsto> (case comps c of None \<Rightarrow> [] | Some m \<Rightarrow> m) @ [i])"
    have ri: "(r, i) \<in> (linked st)\<^sup>*" using "2.prems"(1) by simp
    have a: "\<forall>j \<in> set (connections (st ! i) @ pending). (r, j) \<in> (linked (fst (?st, ?comps)))\<^sup>*"
    proof
      fix j assume j: "j \<in> set (connections (st ! i) @ pending)"
      show "(r, j) \<in> (linked (fst (?st, ?comps)))\<^sup>*"
      proof (cases "j \<in> set pending")
        case True
        with "2.prems"(1) show ?thesis by (simp add: linked_label)
      next
        case False
        with j have "j \<in> set (connections (st ! i))" by simp
        with \<open>i < length st \<and> unlabelled (st ! i)\<close> have "(i, j) \<in> linked st" by (simp add: linked_def)
        with ri have "(r, j) \<in> (linked st)\<^sup>*" by (rule rtrancl_into_rtrancl)
        then show ?thesis by (simp add: linked_label)
      qed
    qed
    have b: "\<forall>m. snd (?st, ?comps) c = Some m \<longrightarrow> (\<forall>j \<in> set m. (r, j) \<in> (linked (fst (?st, ?comps)))\<^sup>*)"
    proof (intro allI impI ballI)
      fix m j assume m: "snd (?st, ?comps) c = Some m" and j: "j \<in> set m"
      from m have "m = (case comps c of None \<Rightarrow> [] | Some m \<Rightarrow> m) @ [i]" by simp
      with j have "j = i \<or> (\<exists>m0. comps c = Some m0 \<and> j \<in> set m0)"
        by (cases "comps c") auto
      with ri "2.prems"(2) have "(r, j) \<in> (linked st)\<^sup>*" by auto
      then show "(r, j) \<in> (linked (fst (?st, ?comps)))\<^sup>*" by (simp add: linked_label)
    qed
    from "2.IH"(1) [OF True a b] True show ?thesis by (simp add: dfs_visit linked_label)
  next
    case False
    have "\<forall>j \<in> set pending. (r, j) \<in> (linked (fst (st, comps)))\<^sup>*" using "2.prems"(1) by simp
    from "2.IH"(2) [OF False this "2.prems"(2)] show ?thesis
      by (simp only: dfs_skip [OF False] simp_thms)
  qed
qed

text \<open>
  Before the component numbered \<open>c\<close> is started, every component in the map has a
  smaller number and is connected.
\<close>

definition rootedBelow :: "nat \<Rightarrow> store \<times> components \<Rightarrow> bool" where
  "rootedBelow c sc = (\<forall>c' m. snd sc c' = Some m \<longrightarrow> c' < c \<and> connectedComponent (fst sc) m)"

lemma dfs_rootedBelow:
  assumes inv: "rootedBelow c (st, comps)" and i: "i < length st" "unlabelled (st ! i)"
  shows "rootedBelow (c + 1) (dfs c [i] (st, comps))"
proof -
  let ?st = "st[i := (st ! i)\<lparr> componentId := int c \<rparr>]"
  let ?comps = "comps(c \<mapsto> (case comps c of None \<Rightarrow> [] | Some m \<Rightarrow> m) @ [i])"
  let ?r = "dfs c [i] (st, comps)"
  have none: "comps c = None"
  proof (cases "comps c")
    case (Some m)
    with inv have "c < c" unfolding rootedBelow_def by fastforce
    then show ?thesis by simp
  qed simp
  have eq: "?r = dfs c (connections (st ! i)) (?st, ?comps)"
    using i by (simp add: dfs_visit)
  have lk: "linked (fst ?r) = linked st"
    by (rule linked_erase) (use dfs_erase [of c "[i]" "(st, comps)"] in simp)
  have a: "\<forall>j \<in> set (connections (st ! i)). (i, j) \<in> (linked (fst (?st, ?comps)))\<^sup>*"
    using i by (auto simp: linked_label linked_def)
  have b: "\<forall>m. snd (?st, ?comps) c = Some m \<longrightarrow> (\<forall>j \<in> set m. (i, j) \<in> (linked (fst (?st, ?comps)))\<^sup>*)"
    using none by simp
  from dfs_rooted [OF a b] have reach:
    "\<forall>m. snd ?r c = Some m \<longrightarrow> (\<forall>j \<in> set m. (i, j) \<in> (linked st)\<^sup>*)"
    by (simp add: eq linked_label)
  have "snd (?st, ?comps) c = Some [i]" using none by simp
  from dfs_grows [OF this, of "connections (st ! i)"] have mem:
    "\<exists>m. snd ?r c = Some m \<and> i \<in> set m" by (simp add: eq)
  show ?thesis
    unfolding rootedBelow_def
  proof (intro allI impI)
    fix c' m assume m: "snd ?r c' = Some m"
    show "c' < c + 1 \<and> connectedComponent (fst ?r) m"
    proof (cases "c' = c")
      case True
      with m reach mem have "i \<in> set m" "\<forall>j \<in> set m. (i, j) \<in> (linked st)\<^sup>*" by auto
      then have "connectedComponent (fst ?r) m" unfolding connectedComponent_def lk by blast
      with True show ?thesis by simp
    next
      case False
      with m have "comps c' = Some m" using dfs_other [of c' c "[i]" "(st, comps)"] by simp
      with inv have "c' < c" "connectedComponent st m" unfolding rootedBelow_def by fastforce+
      then show ?thesis unfolding connectedComponent_def lk by simp
    qed
  qed
qed

lemma componentsLoop_rooted:
  "rootedBelow c sc \<Longrightarrow> \<exists>c'. rootedBelow c' (componentsLoop lines c sc)"
proof (induction lines c sc rule: componentsLoop.induct)
  case (1 c sc)
  then show ?case by auto
next
  case (2 i rest c st comps)
  show ?case
  proof (cases "i < length st \<and> unlabelled (st ! i)")
    case True
    then have "rootedBelow (c + 1) (dfs c [i] (st, comps))"
      using "2.prems" by (intro dfs_rootedBelow) simp_all
    from "2.IH"(1) [OF True this] True show ?thesis by (simp add: componentsLoop_start)
  next
    case False
    from "2.IH"(2) [OF False "2.prems"] show ?thesis
      by (simp only: componentsLoop_skip [OF False] simp_thms)
  qed
qed


lemma dfs_labels_ge:
  "\<forall>line \<in> set (fst sc). - 1 \<le> componentId line \<Longrightarrow>
   \<forall>line \<in> set (fst (dfs c pending sc)). - 1 \<le> componentId line"
proof (induction c pending sc rule: dfs.induct)
  case (1 c sc)
  then show ?case by (simp add: dfs_Nil)
next
  case (2 c i pending st comps)
  show ?case
  proof (cases "i < length st \<and> unlabelled (st ! i)")
    case True
    let ?st = "st[i := (st ! i)\<lparr> componentId := int c \<rparr>]"
    have "\<forall>line \<in> set ?st. - 1 \<le> componentId line"
    proof
      fix line assume "line \<in> set ?st"
      then have "line = (st ! i)\<lparr> componentId := int c \<rparr> \<or> line \<in> set st"
        using set_update_subset_insert [of st i] by auto
      with "2.prems" show "- 1 \<le> componentId line" by auto
    qed
    then have "\<forall>line \<in> set (fst (?st, comps(c \<mapsto> (case comps c of None \<Rightarrow> [] | Some m \<Rightarrow> m) @ [i]))).
                 - 1 \<le> componentId line" by simp
    from "2.IH"(1) [OF True this] True show ?thesis by (simp add: dfs_visit)
  next
    case False
    from "2.IH"(2) [OF False "2.prems"] show ?thesis by (simp only: dfs_skip [OF False] simp_thms)
  qed
qed

lemma componentsLoop_labels_ge:
  "\<forall>line \<in> set (fst sc). - 1 \<le> componentId line \<Longrightarrow>
   \<forall>line \<in> set (fst (componentsLoop lines c sc)). - 1 \<le> componentId line"
proof (induction lines c sc rule: componentsLoop.induct)
  case (1 c sc)
  then show ?case by simp
next
  case (2 i rest c st comps)
  show ?case
  proof (cases "i < length st \<and> unlabelled (st ! i)")
    case True
    have "\<forall>line \<in> set (fst (dfs c [i] (st, comps))). - 1 \<le> componentId line"
      using "2.prems" by (rule dfs_labels_ge)
    from "2.IH"(1) [OF True this] True show ?thesis by (simp add: componentsLoop_start)
  next
    case False
    from "2.IH"(2) [OF False "2.prems"] show ?thesis
      by (simp only: componentsLoop_skip [OF False] simp_thms)
  qed
qed

text \<open>
  C9. On a store of fresh segments (as \<open>buildTopology\<close> returns them), after the
  component pass: the labelling changed nothing but the component numbers; every
  component of the map is connected; every segment that entered the pass is a member
  of the component it is labelled with; every segment that survives the pass is a
  member of a component that has at least \<open>MIN_COMPONENT_SIZE\<close> segments, or contains a
  segment with C1 continuity, or contains an axis-aligned segment; every segment whose
  component meets none of the three criteria is dropped; and the third pass only removes
  further segments. The components are those of the adjacency built over all
  segments, so a component can contain segments that the first pass removed.
\<close>

theorem filterLines_component_pass:
  assumes fresh: "\<forall>line \<in> set st. componentId line = - 1"
    and valid: "\<forall>i \<in> set lines. i < length st"
  shows "case findConnectedComponents st (firstPass st lines) of (st', comps) \<Rightarrow>
       erase st' = erase st
     \<and> (\<forall>c m. comps c = Some m \<longrightarrow> connectedComponent st m)
     \<and> (\<forall>i \<in> set (firstPass st lines).
           \<exists>c m. componentId (st' ! i) = int c \<and> comps c = Some m \<and> i \<in> set m)
     \<and> (\<forall>i \<in> set (snd (secondPass st (firstPass st lines))).
           \<exists>c m. componentId (st' ! i) = int c \<and> comps c = Some m \<and> i \<in> set m
               \<and> (MIN_COMPONENT_SIZE \<le> card (set m)
                    \<or> (\<exists>j \<in> set m. hasC1Continuity (st ! j))
                    \<or> (\<exists>j \<in> set m. isAxisAligned (st ! j))))
     \<and> (\<forall>i \<in> set (firstPass st lines). \<forall>c m.
           componentId (st' ! i) = int c \<and> comps c = Some m \<and> card (set m) < MIN_COMPONENT_SIZE
           \<and> (\<forall>j \<in> set m. \<not> hasC1Continuity (st ! j) \<and> \<not> isAxisAligned (st ! j))
           \<longrightarrow> i \<notin> set (snd (secondPass st (firstPass st lines))))
     \<and> set (snd (filterLines st lines)) \<subseteq> set (snd (secondPass st (firstPass st lines)))
     \<and> set (snd (secondPass st (firstPass st lines))) \<subseteq> set (firstPass st lines)"
proof -
  let ?L = "firstPass st lines"
  obtain st' comps where fc: "findConnectedComponents st ?L = (st', comps)"
    by (cases "findConnectedComponents st ?L")
  then have run: "componentsLoop ?L 0 (st, Map.empty) = (st', comps)"
    by (simp add: findConnectedComponents_def)
  have L: "\<forall>i \<in> set ?L. i < length st" using valid by (simp add: firstPass_def)
  have "consistent (st, Map.empty)"
    unfolding consistent_def using fresh by (auto simp: all_set_conv_all_nth)
  then have "consistent (componentsLoop ?L 0 (st, Map.empty))" by (rule componentsLoop_consistent)
  then have con: "consistent (st', comps)" by (simp add: run)
  have er: "erase st' = erase st"
    using componentsLoop_erase [of ?L 0 "(st, Map.empty)"] by (simp add: run)
  then have len: "length st' = length st" by (rule length_erase)
  have lk: "linked st' = linked st" using er by (rule linked_erase)
  have "rootedBelow 0 (st, Map.empty)" by (simp add: rootedBelow_def)
  then obtain c0 where "rootedBelow c0 (componentsLoop ?L 0 (st, Map.empty))"
    using componentsLoop_rooted by blast
  then have cc: "\<forall>c m. comps c = Some m \<longrightarrow> connectedComponent st m"
    unfolding rootedBelow_def connectedComponent_def by (simp add: run lk)
  have ge: "\<forall>line \<in> set st'. - 1 \<le> componentId line"
    using componentsLoop_labels_ge [of "(st, Map.empty)" ?L 0] fresh by (simp add: run)
  have mem: "\<exists>c m. componentId (st' ! i) = int c \<and> comps c = Some m \<and> i \<in> set m"
    if i: "i \<in> set ?L" for i
  proof -
    from i L have il: "i < length st" by blast
    have "\<not> unlabelled (fst (componentsLoop ?L 0 (st, Map.empty)) ! i)"
      by (rule componentsLoop_labels) (use i il in simp_all)
    then have "componentId (st' ! i) \<noteq> - 1" by (simp add: run unlabelled_def)
    moreover have "- 1 \<le> componentId (st' ! i)" using ge il len by simp
    ultimately have "componentId (st' ! i) = int (nat (componentId (st' ! i)))" by simp
    with con il len show ?thesis unfolding consistent_def fst_conv snd_conv by metis
  qed
  have attr: "hasC1Continuity (st' ! j) = hasC1Continuity (st ! j)"
             "isAxisAligned (st' ! j) = isAxisAligned (st ! j)" if "j < length st'" for j
    using erase_attr [OF er that] by simp_all
  have crit: "validComponent st' m \<longleftrightarrow>
      (MIN_COMPONENT_SIZE \<le> card (set m) \<or> (\<exists>j \<in> set m. hasC1Continuity (st ! j))
        \<or> (\<exists>j \<in> set m. isAxisAligned (st ! j)))" if m: "comps c = Some m" for c m
  proof -
    from con m have d: "distinct m" and b: "\<forall>j \<in> set m. j < length st'"
      unfolding consistent_def fst_conv snd_conv by blast+
    from d have "card (set m) = length m" by (rule distinct_card)
    with b attr show ?thesis by (auto simp: validComponent_def Let_def list_ex_iff)
  qed
  have sp: "snd (secondPass st ?L) = filter (\<lambda>i. inValidComponents st' comps (componentId (st' ! i))) ?L"
    by (simp add: secondPass_def fc)
  have surv: "\<exists>c m. componentId (st' ! i) = int c \<and> comps c = Some m \<and> i \<in> set m
               \<and> (MIN_COMPONENT_SIZE \<le> card (set m)
                    \<or> (\<exists>j \<in> set m. hasC1Continuity (st ! j))
                    \<or> (\<exists>j \<in> set m. isAxisAligned (st ! j)))"
    if i: "i \<in> set (snd (secondPass st ?L))" for i
  proof -
    from i have iL: "i \<in> set ?L" and v: "inValidComponents st' comps (componentId (st' ! i))"
      by (simp_all add: sp)
    from mem [OF iL] obtain c m where cm: "componentId (st' ! i) = int c" "comps c = Some m" "i \<in> set m"
      by blast
    with v have "validComponent st' m" by (simp add: inValidComponents_def)
    with crit [OF cm(2)] cm show ?thesis by blast
  qed
  have drop: "i \<notin> set (snd (secondPass st ?L))"
    if "componentId (st' ! i) = int c \<and> comps c = Some m \<and> card (set m) < MIN_COMPONENT_SIZE
           \<and> (\<forall>j \<in> set m. \<not> hasC1Continuity (st ! j) \<and> \<not> isAxisAligned (st ! j))" for i c m
  proof -
    from that crit [of c m] have "\<not> validComponent st' m" by auto
    with that have "\<not> inValidComponents st' comps (componentId (st' ! i))"
      by (simp add: inValidComponents_def)
    then show ?thesis by (simp add: sp)
  qed
  have sub3: "set (snd (filterLines st lines)) \<subseteq> set (snd (secondPass st ?L))"
    by (cases "secondPass st ?L") (auto simp: filterLines_def thirdPass_def)
  have sub2: "set (snd (secondPass st ?L)) \<subseteq> set ?L" by (auto simp: sp)
  from er cc mem surv drop sub3 sub2 show ?thesis
    unfolding fc prod.case by blast
qed


subsection \<open>A long segment with two short neighbours\<close>

text \<open>
  Three fresh segments: a long oblique one (identity 0) with a short segment attached
  at each end (identities 1 and 2); none is axis-aligned and none has C1 continuity.
\<close>

definition demoStore :: store where
  "demoStore =
     [\<lparr> seg_start = Vector3 0 0 0, seg_end = Vector3 (3/100) (4/100) 0, seg_length = 5/100,
        direction = Vector3 (3/5) (4/5) 0, isValid = True, connections = [1, 2],
        componentId = - 1, hasC1Continuity = False \<rparr>,
      \<lparr> seg_start = Vector3 0 0 0, seg_end = Vector3 (- 3/1000) (4/1000) 0, seg_length = 5/1000,
        direction = Vector3 (- 3/5) (4/5) 0, isValid = True, connections = [0],
        componentId = - 1, hasC1Continuity = False \<rparr>,
      \<lparr> seg_start = Vector3 (3/100) (4/100) 0, seg_end = Vector3 (34/1000) (37/1000) 0, seg_length = 5/1000,
        direction = Vector3 (4/5) (- 3/5) 0, isValid = True, connections = [0],
        componentId = - 1, hasC1Continuity = False \<rparr>]"

lemma demo_firstPass: "firstPass demoStore [0, 1, 2] = [0]"
  by (simp add: firstPass_def demoStore_def isAxisAligned_def MIN_LINE_LENGTH_def
        MIN_CONNECTED_LINES_def Let_def)

lemma demo_components:
  "snd (findConnectedComponents demoStore [0]) 0 = Some [0, 1, 2]"
  "map componentId (fst (findConnectedComponents demoStore [0])) = [0, 0, 0]"
  by (simp_all add: findConnectedComponents_def componentsLoop.simps dfs.simps demoStore_def
        unlabelled_def)

theorem filterLines_component_pass_witness:
  "map componentId demoStore = [- 1, - 1, - 1]
   \<and> firstPass demoStore [0, 1, 2] = [0]
   \<and> snd (findConnectedComponents demoStore (firstPass demoStore [0, 1, 2])) 0 = Some [0, 1, 2]
   \<and> snd (secondPass demoStore (firstPass demoStore [0, 1, 2])) = [0]
   \<and> connectedComponent demoStore [0, 1, 2]"
proof -
  have f: "\<forall>line \<in> set demoStore. componentId line = - 1" by (simp add: demoStore_def)
  have v: "\<forall>i \<in> set [0, 1, 2]. i < length demoStore" by (simp add: demoStore_def)
  have s: "snd (secondPass demoStore [0]) = [0]"
    by (simp add: secondPass_def findConnectedComponents_def componentsLoop.simps dfs.simps
          demoStore_def unlabelled_def inValidComponents_def validComponent_def MIN_COMPONENT_SIZE_def)
  have fc0: "findConnectedComponents demoStore (firstPass demoStore [0, 1, 2])
               = findConnectedComponents demoStore [0]"
    by (simp only: demo_firstPass)
  obtain st' comps where fc: "findConnectedComponents demoStore [0] = (st', comps)"
    by (cases "findConnectedComponents demoStore [0]")
  have c: "comps 0 = Some [0, 1, 2]"
    using demo_components(1) by (simp only: fc snd_conv)
  from filterLines_component_pass [OF f v, unfolded fc0 fc prod.case]
  have "\<forall>c m. comps c = Some m \<longrightarrow> connectedComponent demoStore m" by blast
  with c have cc: "connectedComponent demoStore [0, 1, 2]" by blast
  have m: "map componentId demoStore = [- 1, - 1, - 1]" by (simp add: demoStore_def)
  have k: "snd (findConnectedComponents demoStore (firstPass demoStore [0, 1, 2])) 0 = Some [0, 1, 2]"
    by (simp only: fc0 demo_components(1))
  have s': "snd (secondPass demoStore (firstPass demoStore [0, 1, 2])) = [0]"
    by (simp only: demo_firstPass s)
  from m demo_firstPass k s' cc show ?thesis by blast
qed

end
